theory Spec2Isabelle
  imports Main "HOL-Library.Word"
begin

unbundle bit_operations_syntax

section \<open>Data of the cache simulator (csim.c)\<close>

text \<open>
  \<open>unsigned long\<close> is a 64-bit word and \<open>unsigned int\<close> a 32-bit word (LP64); all
  arithmetic on them wraps.  A cache line is the struct \<open>cacheLine_t\<close>.
\<close>

record cacheLine_t =
  iTag :: "64 word"
  bDirtyFlag :: "32 word"
  bValidFlag :: "32 word"
  iRank :: "32 word"
  dirtyEvictionCount :: "32 word"

text \<open>
  Modelled from the spec: \<open>csim_stats_t\<close> is declared in cachelab.h, which is not among
  the sources; the spec only says that the statistics are five integer fields.  They are
  taken as \<open>unsigned long\<close> counters.
\<close>

record csim_stats_t =
  hits :: "64 word"
  misses :: "64 word"
  evictions :: "64 word"
  dirty_bytes :: "64 word"
  dirty_evictions :: "64 word"

text \<open>The process-wide variables of csim.c that the cache functions read.\<close>

record globals =
  iSetBitCount :: "32 word"
  iSetCount :: "32 word"
  iCacheLinesPerSet :: "32 word"
  iBlockBitCount :: "32 word"
  iBlocksPerLine :: "32 word"
  iRecentAccessRankValue :: "32 word"
  bVerbose :: bool

text \<open>
  The two objects the cache functions mutate through pointers: the calloc'ed array of
  lines and the statistics.
\<close>

record sim_state =
  cacheAddr :: "cacheLine_t list"
  stats :: csim_stats_t

text \<open>
  What C leaves undefined but a platform decides: the value of a right shift of an
  \<open>unsigned long\<close> by 64 or more, the value of \<open>1 << n\<close> on \<open>int\<close> for \<open>n\<close> above 30,
  and whether \<open>calloc\<close> of a number of lines succeeds.  Every theorem below holds for
  every platform.
\<close>

record platform =
  shr_wide :: "64 word \<Rightarrow> nat \<Rightarrow> 64 word"
  shl_wide :: "nat \<Rightarrow> 32 word"
  calloc_ok :: "nat \<Rightarrow> bool"

definition shr_ulong :: "platform \<Rightarrow> 64 word \<Rightarrow> 32 word \<Rightarrow> 64 word" where
  "shr_ulong p x n = (if unat n < 64 then drop_bit (unat n) x else shr_wide p x (unat n))"

definition shl_one :: "platform \<Rightarrow> 32 word \<Rightarrow> 32 word" where
  "shl_one p n = (if unat n \<le> 30 then push_bit (unat n) 1 else shl_wide p (unat n))"

section \<open>The cache functions\<close>

text \<open>
  The index expression \<open>(addrSVal * iCacheLinesPerSet) + j\<close>: \<open>addrSVal\<close> is an
  \<open>unsigned long\<close>, so the other operands are promoted and the sum is taken in 64 bits.
  The loop counter \<open>j\<close> is an \<open>unsigned int\<close> below \<open>iCacheLinesPerSet\<close>; it is kept as a
  natural number.
\<close>

definition lineIndex :: "globals \<Rightarrow> 64 word \<Rightarrow> nat \<Rightarrow> nat" where
  "lineIndex g addrSVal j = unat (addrSVal * ucast (iCacheLinesPerSet g) + of_nat j)"

text \<open>
  A loop \<open>for (j = 0; j < iCacheLinesPerSet; j++)\<close> is a recursion over the list of the
  counters still to come; \<open>break\<close> returns without the recursive call.  An access
  outside the allocated array is undefined in C: the model returns \<open>None\<close> there.
\<close>

definition lineCounters :: "globals \<Rightarrow> nat list" where
  "lineCounters g = [0 ..< unat (iCacheLinesPerSet g)]"

fun rankUpdateLoop ::
  "globals \<Rightarrow> 64 word \<Rightarrow> nat \<Rightarrow> nat list \<Rightarrow> cacheLine_t list \<Rightarrow> cacheLine_t list option" where
  "rankUpdateLoop g addrSVal recentAccessIndex [] c = Some c"
| "rankUpdateLoop g addrSVal recentAccessIndex (i # is) c =
    (if i \<noteq> recentAccessIndex then
       (let k = lineIndex g addrSVal i in
        if k < length c then
          rankUpdateLoop g addrSVal recentAccessIndex is
            (if bValidFlag (c ! k) = 1
             then c[k := (c ! k)\<lparr>iRank := iRank (c ! k) - 1\<rparr>]
             else c)
        else None)
     else rankUpdateLoop g addrSVal recentAccessIndex is c)"

definition cacheLineRankUpdate ::
  "globals \<Rightarrow> cacheLine_t list \<Rightarrow> 64 word \<Rightarrow> nat \<Rightarrow> cacheLine_t list option" where
  "cacheLineRankUpdate g c addrSVal recentAccessIndex =
     rankUpdateLoop g addrSVal recentAccessIndex (lineCounters g) c"

text \<open>\<open>EVICTION_RANK_VAL\<close> is 1, \<open>CACHE_INVALID_FLAG\<close> is 0, \<open>CACHE_VALID_FLAG\<close> is 1.\<close>

definition evictedLine :: "globals \<Rightarrow> 64 word \<Rightarrow> 32 word \<Rightarrow> cacheLine_t \<Rightarrow> cacheLine_t" where
  "evictedLine g addrTagVal memAccessType l =
     (let l1 = l\<lparr>iTag := addrTagVal, iRank := iRecentAccessRankValue g\<rparr>;
          l2 = (if bDirtyFlag l1 = 1
                then l1\<lparr>dirtyEvictionCount := dirtyEvictionCount l1 + 1\<rparr> else l1)
      in (if memAccessType = 0 then l2\<lparr>bDirtyFlag := 0\<rparr> else l2\<lparr>bDirtyFlag := 1\<rparr>))"

fun evictLoop ::
  "globals \<Rightarrow> 64 word \<Rightarrow> 64 word \<Rightarrow> 32 word \<Rightarrow> nat list \<Rightarrow> cacheLine_t list
   \<Rightarrow> cacheLine_t list option" where
  "evictLoop g addrSVal addrTagVal memAccessType [] c = Some c"
| "evictLoop g addrSVal addrTagVal memAccessType (j # js) c =
    (let k = lineIndex g addrSVal j in
     if k < length c then
       if iRank (c ! k) = 1 then
         cacheLineRankUpdate g (c[k := evictedLine g addrTagVal memAccessType (c ! k)]) addrSVal j
       else evictLoop g addrSVal addrTagVal memAccessType js c
     else None)"

definition cacheEvictionHandler ::
  "globals \<Rightarrow> sim_state \<Rightarrow> 64 word \<Rightarrow> 64 word \<Rightarrow> 32 word \<Rightarrow> sim_state option" where
  "cacheEvictionHandler g st addrSVal addrTagVal memAccessType =
     (let st1 = st\<lparr>stats := (stats st)\<lparr>evictions := evictions (stats st) + 1\<rparr>\<rparr> in
      case evictLoop g addrSVal addrTagVal memAccessType (lineCounters g) (cacheAddr st1) of
        None \<Rightarrow> None
      | Some c \<Rightarrow> Some (st1\<lparr>cacheAddr := c\<rparr>))"

definition filledLine :: "globals \<Rightarrow> 64 word \<Rightarrow> 32 word \<Rightarrow> cacheLine_t \<Rightarrow> cacheLine_t" where
  "filledLine g addrTagVal memAccessType l =
     (let l1 = l\<lparr>bValidFlag := 1, iTag := addrTagVal, iRank := iRecentAccessRankValue g\<rparr>
      in (if memAccessType = 1 then l1\<lparr>bDirtyFlag := 1\<rparr> else l1\<lparr>bDirtyFlag := 0\<rparr>))"

text \<open>The loop of \<open>cacheMissHandler\<close>; the Boolean is \<open>evictFlag\<close>.\<close>

fun missLoop ::
  "globals \<Rightarrow> 64 word \<Rightarrow> 64 word \<Rightarrow> 32 word \<Rightarrow> nat list \<Rightarrow> bool \<Rightarrow> cacheLine_t list
   \<Rightarrow> (bool \<times> cacheLine_t list) option" where
  "missLoop g addrSVal addrTagVal memAccessType [] evictFlag c = Some (evictFlag, c)"
| "missLoop g addrSVal addrTagVal memAccessType (j # js) evictFlag c =
    (let k = lineIndex g addrSVal j in
     if k < length c then
       if bValidFlag (c ! k) = 0 then
         (case cacheLineRankUpdate g (c[k := filledLine g addrTagVal memAccessType (c ! k)])
                 addrSVal j of
            None \<Rightarrow> None
          | Some c' \<Rightarrow> Some (False, c'))
       else missLoop g addrSVal addrTagVal memAccessType js True c
     else None)"

definition cacheMissHandler ::
  "globals \<Rightarrow> sim_state \<Rightarrow> 64 word \<Rightarrow> 64 word \<Rightarrow> 32 word \<Rightarrow> sim_state option" where
  "cacheMissHandler g st addrSVal addrTagVal memAccessType =
     (let st1 = st\<lparr>stats := (stats st)\<lparr>misses := misses (stats st) + 1\<rparr>\<rparr> in
      case missLoop g addrSVal addrTagVal memAccessType (lineCounters g) False (cacheAddr st1) of
        None \<Rightarrow> None
      | Some (evictFlag, c) \<Rightarrow>
          if evictFlag
          then cacheEvictionHandler g (st1\<lparr>cacheAddr := c\<rparr>) addrSVal addrTagVal memAccessType
          else Some (st1\<lparr>cacheAddr := c\<rparr>))"

text \<open>The mask loops \<open>mask = (mask << 1) + 1\<close>, run \<open>n\<close> times from 0.\<close>

fun maskLoop :: "nat \<Rightarrow> 64 word \<Rightarrow> 64 word" where
  "maskLoop 0 m = m"
| "maskLoop (Suc n) m = maskLoop n (push_bit 1 m + 1)"

definition addrSValOf :: "platform \<Rightarrow> globals \<Rightarrow> 64 word \<Rightarrow> 64 word" where
  "addrSValOf p g memAddr =
     shr_ulong p memAddr (iBlockBitCount g) AND maskLoop (unat (iSetBitCount g)) 0"

text \<open>
  \<open>ADDRESS_BITS_LEN - (iSetBitCount + iBlockBitCount)\<close> is an \<open>unsigned int\<close>
  expression: it wraps when the two bit counts exceed 64.
\<close>

definition addrTagValOf :: "platform \<Rightarrow> globals \<Rightarrow> 64 word \<Rightarrow> 64 word" where
  "addrTagValOf p g memAddr =
     shr_ulong p memAddr (iBlockBitCount g + iSetBitCount g)
       AND maskLoop (unat (64 - (iSetBitCount g + iBlockBitCount g))) 0"

text \<open>The handler loop of \<open>checkSimulatorCache\<close>; the Boolean is \<open>hitFlag\<close>.\<close>

fun hitLoop ::
  "globals \<Rightarrow> 32 word \<Rightarrow> 64 word \<Rightarrow> 64 word \<Rightarrow> nat list \<Rightarrow> sim_state
   \<Rightarrow> (bool \<times> sim_state) option" where
  "hitLoop g memAccessType addrSVal addrTagVal [] st = Some (False, st)"
| "hitLoop g memAccessType addrSVal addrTagVal (j # js) st =
    (let k = lineIndex g addrSVal j; c = cacheAddr st in
     if k < length c then
       if iTag (c ! k) = addrTagVal \<and> bValidFlag (c ! k) \<noteq> 0 then
         (case (if iRank (c ! k) \<noteq> iRecentAccessRankValue g
                then cacheLineRankUpdate g
                       (c[k := (c ! k)\<lparr>iRank := iRecentAccessRankValue g\<rparr>]) addrSVal j
                else Some c) of
            None \<Rightarrow> None
          | Some c1 \<Rightarrow>
              Some (True,
                \<lparr>cacheAddr = (if memAccessType = 1
                              then c1[k := (c1 ! k)\<lparr>bDirtyFlag := 1\<rparr>] else c1),
                 stats = (stats st)\<lparr>hits := hits (stats st) + 1\<rparr>\<rparr>))
       else hitLoop g memAccessType addrSVal addrTagVal js st
     else None)"

definition checkSimulatorCache ::
  "platform \<Rightarrow> globals \<Rightarrow> sim_state \<Rightarrow> 32 word \<Rightarrow> 64 word \<Rightarrow> sim_state option" where
  "checkSimulatorCache p g st memAccessType memAddr =
     (let addrSVal = addrSValOf p g memAddr;
          addrTagVal = addrTagValOf p g memAddr in
      case hitLoop g memAccessType addrSVal addrTagVal (lineCounters g) st of
        None \<Rightarrow> None
      | Some (hitFlag, st1) \<Rightarrow>
          if \<not> hitFlag then cacheMissHandler g st1 addrSVal addrTagVal memAccessType
          else Some st1)"

section \<open>The driver: \<open>main\<close>\<close>

text \<open>
  Command-line and trace parsing are external (\<open>getopt\<close>, \<open>atoi\<close>, \<open>fopen\<close>,
  \<open>fscanf\<close>).  The model takes their results: one \<open>cli_option\<close> for each option
  \<open>getopt\<close> returns, carrying the \<open>int\<close> that \<open>atoi\<close> gave or the outcome of \<open>fopen\<close>
  (\<open>None\<close> for \<open>NULL\<close>), and for an opened trace the values of \<open>memAccessType\<close>,
  \<open>memAddress\<close> and \<open>byteSize\<close> after each call of \<open>fscanf\<close> that returned a positive
  count.  An \<open>int\<close> is a 32-bit word read in two's complement.
\<close>

type_synonym trace_record = "char \<times> 64 word \<times> 32 word"

datatype cli_option =
  Opt_h | Opt_v | Opt_s "32 word" | Opt_E "32 word" | Opt_b "32 word"
  | Opt_t "trace_record list option" | Opt_unknown

text \<open>What the program prints, apart from the per-access lines of verbose mode.\<close>

datatype message = HelpText | InvalidFlag | InvalidParameters | HeapFailed | Summary csim_stats_t

record main_vars =
  glob :: globals
  inputTraceFile :: "trace_record list option"
  bHelpevoked :: bool
  iSignedSetBitCount :: "32 word"
  iSignedCacheLinesPerSet :: "32 word"
  iSignedBlockBitCount :: "32 word"
  printed :: "message list"

definition initial_globals :: globals where
  "initial_globals =
     \<lparr>iSetBitCount = 0, iSetCount = 0, iCacheLinesPerSet = 0, iBlockBitCount = 0,
      iBlocksPerLine = 0, iRecentAccessRankValue = 0, bVerbose = False\<rparr>"

definition initial_main_vars :: main_vars where
  "initial_main_vars =
     \<lparr>glob = initial_globals, inputTraceFile = None, bHelpevoked = False,
      iSignedSetBitCount = - 1, iSignedCacheLinesPerSet = - 1, iSignedBlockBitCount = - 1,
      printed = []\<rparr>"

fun optionStep :: "platform \<Rightarrow> main_vars \<Rightarrow> cli_option \<Rightarrow> main_vars" where
  "optionStep p mv Opt_h = mv\<lparr>bHelpevoked := True, printed := printed mv @ [HelpText]\<rparr>"
| "optionStep p mv Opt_v = mv\<lparr>glob := (glob mv)\<lparr>bVerbose := True\<rparr>\<rparr>"
| "optionStep p mv (Opt_s n) =
     mv\<lparr>iSignedSetBitCount := n,
        glob := (glob mv)\<lparr>iSetBitCount := n, iSetCount := shl_one p n\<rparr>\<rparr>"
| "optionStep p mv (Opt_E n) =
     mv\<lparr>iSignedCacheLinesPerSet := n,
        glob := (glob mv)\<lparr>iCacheLinesPerSet := n, iRecentAccessRankValue := n\<rparr>\<rparr>"
| "optionStep p mv (Opt_b n) =
     mv\<lparr>iSignedBlockBitCount := n,
        glob := (glob mv)\<lparr>iBlockBitCount := n, iBlocksPerLine := shl_one p n\<rparr>\<rparr>"
| "optionStep p mv (Opt_t f) = mv\<lparr>inputTraceFile := f\<rparr>"
| "optionStep p mv Opt_unknown = mv\<lparr>printed := printed mv @ [InvalidFlag]\<rparr>"

text \<open>The \<open>while (getopt ...)\<close> loop, from the initial values of the variables.\<close>

definition optionLoop :: "platform \<Rightarrow> cli_option list \<Rightarrow> main_vars" where
  "optionLoop p opts = foldl (optionStep p) initial_main_vars opts"


text \<open>The \<open>while (fscanf ... > 0)\<close> loop, carrying \<open>iMemAccessTypeFlag\<close>.\<close>

fun traceLoop ::
  "platform \<Rightarrow> globals \<Rightarrow> trace_record list \<Rightarrow> 32 word \<Rightarrow> sim_state \<Rightarrow> sim_state option" where
  "traceLoop p g [] iMemAccessTypeFlag st = Some st"
| "traceLoop p g ((memAccessType, memAddress, byteSize) # rs) iMemAccessTypeFlag st =
    (let flag = (if memAccessType = CHR ''L'' then 0
                 else if memAccessType = CHR ''S'' then 1
                 else iMemAccessTypeFlag) in
     case checkSimulatorCache p g st flag memAddress of
       None \<Rightarrow> None
     | Some st' \<Rightarrow> traceLoop p g rs flag st')"

text \<open>
  The summary loops.  Here every operand of \<open>(i * iCacheLinesPerSet) + j\<close> is an
  \<open>unsigned int\<close>, so the index is computed in 32 bits; the pair carried is
  \<open>(dirtyCacheLineCount, dirtyEvictedCacheLineCount)\<close>.
\<close>

fun summaryInner ::
  "globals \<Rightarrow> cacheLine_t list \<Rightarrow> 32 word \<Rightarrow> nat list \<Rightarrow> 32 word \<times> 32 word
   \<Rightarrow> (32 word \<times> 32 word) option" where
  "summaryInner g c i [] acc = Some acc"
| "summaryInner g c i (j # js) acc =
    (let k = unat (i * iCacheLinesPerSet g + of_nat j) in
     if k < length c then
       summaryInner g c i js
         ((if bDirtyFlag (c ! k) = 1 then fst acc + 1 else fst acc),
          snd acc + dirtyEvictionCount (c ! k))
     else None)"

fun summaryOuter ::
  "globals \<Rightarrow> cacheLine_t list \<Rightarrow> nat list \<Rightarrow> 32 word \<times> 32 word
   \<Rightarrow> (32 word \<times> 32 word) option" where
  "summaryOuter g c [] acc = Some acc"
| "summaryOuter g c (i # is) acc =
    (case summaryInner g c (of_nat i) (lineCounters g) acc of
       None \<Rightarrow> None
     | Some acc' \<Rightarrow> summaryOuter g c is acc')"

definition summarize :: "globals \<Rightarrow> sim_state \<Rightarrow> csim_stats_t option" where
  "summarize g st =
     (case summaryOuter g (cacheAddr st) [0 ..< unat (iSetCount g)] (0, 0) of
        None \<Rightarrow> None
      | Some (dirtyCacheLineCount, dirtyEvictedCacheLineCount) \<Rightarrow>
          Some ((stats st)
            \<lparr>dirty_bytes := ucast (dirtyCacheLineCount * iBlocksPerLine g),
             dirty_evictions := ucast (dirtyEvictedCacheLineCount * iBlocksPerLine g)\<rparr>))"

definition zero_line :: cacheLine_t where
  "zero_line = \<lparr>iTag = 0, bDirtyFlag = 0, bValidFlag = 0, iRank = 0, dirtyEvictionCount = 0\<rparr>"

definition zero_stats :: csim_stats_t where
  "zero_stats = \<lparr>hits = 0, misses = 0, evictions = 0, dirty_bytes = 0, dirty_evictions = 0\<rparr>"

text \<open>\<open>calloc (iSetCount * iCacheLinesPerSet, sizeof (cacheLine_t))\<close>: a 32-bit product.\<close>

definition cacheLineTotal :: "globals \<Rightarrow> nat" where
  "cacheLineTotal g = unat (iSetCount g * iCacheLinesPerSet g)"

definition initial_state :: "globals \<Rightarrow> sim_state" where
  "initial_state g = \<lparr>cacheAddr = replicate (cacheLineTotal g) zero_line, stats = zero_stats\<rparr>"


section \<open>Notions used in the statements\<close>

text \<open>
  The geometries for which the C program is defined: the shifts \<open>1 << s\<close> and \<open>1 << b\<close>
  fit an \<open>int\<close>, the product handed to \<open>calloc\<close> does not wrap, and the globals are what
  the option loop of \<open>main\<close> leaves.
\<close>

definition geometry_ok :: "globals \<Rightarrow> bool" where
  "geometry_ok g \<longleftrightarrow>
     1 \<le> unat (iCacheLinesPerSet g) \<and> unat (iSetBitCount g) \<le> 30
     \<and> unat (iBlockBitCount g) \<le> 30
     \<and> 2 ^ unat (iSetBitCount g) * unat (iCacheLinesPerSet g) < (2::nat) ^ 32
     \<and> iSetCount g = 2 ^ unat (iSetBitCount g)
     \<and> iBlocksPerLine g = 2 ^ unat (iBlockBitCount g)
     \<and> iRecentAccessRankValue g = iCacheLinesPerSet g"

text \<open>The slots of a set lie inside the array and at different places.\<close>

definition accessible :: "globals \<Rightarrow> cacheLine_t list \<Rightarrow> 64 word \<Rightarrow> bool" where
  "accessible g c addrSVal \<longleftrightarrow>
     list_all (\<lambda>j. lineIndex g addrSVal j < length c) (lineCounters g)
     \<and> distinct (map (lineIndex g addrSVal) (lineCounters g))"

text \<open>The first slot of a set at which each of the three loops stops.\<close>

definition hitSlot :: "globals \<Rightarrow> cacheLine_t list \<Rightarrow> 64 word \<Rightarrow> 64 word \<Rightarrow> nat option" where
  "hitSlot g c addrSVal addrTagVal =
     find (\<lambda>j. iTag (c ! lineIndex g addrSVal j) = addrTagVal
               \<and> bValidFlag (c ! lineIndex g addrSVal j) \<noteq> 0) (lineCounters g)"

definition emptySlot :: "globals \<Rightarrow> cacheLine_t list \<Rightarrow> 64 word \<Rightarrow> nat option" where
  "emptySlot g c addrSVal =
     find (\<lambda>j. bValidFlag (c ! lineIndex g addrSVal j) = 0) (lineCounters g)"

definition victimSlot :: "globals \<Rightarrow> cacheLine_t list \<Rightarrow> 64 word \<Rightarrow> nat option" where
  "victimSlot g c addrSVal =
     find (\<lambda>j. iRank (c ! lineIndex g addrSVal j) = 1) (lineCounters g)"

text \<open>A tag is resident in a set when a valid line of the set holds it.\<close>

definition resident :: "globals \<Rightarrow> cacheLine_t list \<Rightarrow> 64 word \<Rightarrow> 64 word \<Rightarrow> bool" where
  "resident g c addrSVal addrTagVal \<longleftrightarrow> hitSlot g c addrSVal addrTagVal \<noteq> None"

text \<open>
  The ranks of the valid lines of a set, in slot order, and rank totality: they are
  pairwise distinct and fill a range that ends at \<open>iCacheLinesPerSet\<close>.
\<close>

definition validRanks :: "globals \<Rightarrow> cacheLine_t list \<Rightarrow> 64 word \<Rightarrow> nat list" where
  "validRanks g c addrSVal =
     map (\<lambda>l. unat (iRank l))
       (filter (\<lambda>l. bValidFlag l \<noteq> 0) (map (\<lambda>j. c ! lineIndex g addrSVal j) (lineCounters g)))"

definition rankTotality :: "globals \<Rightarrow> cacheLine_t list \<Rightarrow> 64 word \<Rightarrow> bool" where
  "rankTotality g c addrSVal \<longleftrightarrow>
     distinct (validRanks g c addrSVal)
     \<and> set (validRanks g c addrSVal) =
         {Suc (unat (iCacheLinesPerSet g)) - length (validRanks g c addrSVal)
            ..< Suc (unat (iCacheLinesPerSet g))}"

text \<open>
  The set numbers of a geometry, and the uniqueness invariant: within every set the
  valid lines hold pairwise different tags.
\<close>

definition setNumbers :: "globals \<Rightarrow> 64 word list" where
  "setNumbers g = map of_nat [0 ..< 2 ^ unat (iSetBitCount g)]"

definition validTags :: "globals \<Rightarrow> cacheLine_t list \<Rightarrow> 64 word \<Rightarrow> 64 word list" where
  "validTags g c addrSVal =
     map iTag
       (filter (\<lambda>l. bValidFlag l \<noteq> 0) (map (\<lambda>j. c ! lineIndex g addrSVal j) (lineCounters g)))"

definition uniqueTags :: "globals \<Rightarrow> cacheLine_t list \<Rightarrow> bool" where
  "uniqueTags g c \<longleftrightarrow> list_all (\<lambda>sv. distinct (validTags g c sv)) (setNumbers g)"

text \<open>
  The number of lines that are valid and dirty, and the sum of the dirty-eviction counts
  of all lines, as natural numbers.
\<close>

definition validDirtyCount :: "cacheLine_t list \<Rightarrow> nat" where
  "validDirtyCount c = length (filter (\<lambda>l. bValidFlag l \<noteq> 0 \<and> bDirtyFlag l = 1) c)"

definition evictionCountSum :: "cacheLine_t list \<Rightarrow> nat" where
  "evictionCountSum c = sum_list (map (\<lambda>l. unat (dirtyEvictionCount l)) c)"

text \<open>No invalid line is marked dirty.\<close>

definition dirtyOnlyValid :: "cacheLine_t list \<Rightarrow> bool" where
  "dirtyOnlyValid c \<longleftrightarrow> list_all (\<lambda>l. bDirtyFlag l \<noteq> 1 \<or> bValidFlag l \<noteq> 0) c"

text \<open>
  A set filled from empty with the tags \<open>ts\<close>, in this order: slot \<open>j\<close> holds the
  \<open>j\<close>-th tag, the ranks end at \<open>iCacheLinesPerSet\<close>, and the other slots are invalid.
\<close>

definition filledSet :: "globals \<Rightarrow> cacheLine_t list \<Rightarrow> 64 word \<Rightarrow> 64 word list \<Rightarrow> bool" where
  "filledSet g c addrSVal ts \<longleftrightarrow>
     length ts \<le> unat (iCacheLinesPerSet g)
     \<and> (\<forall>j < unat (iCacheLinesPerSet g).
          if j < length ts
          then iTag (c ! lineIndex g addrSVal j) = ts ! j
             \<and> bValidFlag (c ! lineIndex g addrSVal j) = 1
             \<and> unat (iRank (c ! lineIndex g addrSVal j)) =
                 unat (iCacheLinesPerSet g) - length ts + 1 + j
          else bValidFlag (c ! lineIndex g addrSVal j) = 0)"

text \<open>
  The array after \<open>cacheLineRankUpdate\<close>: every valid line of the set other than slot
  \<open>r\<close> has its rank decremented.
\<close>

definition ageOthers :: "globals \<Rightarrow> 64 word \<Rightarrow> nat \<Rightarrow> cacheLine_t list \<Rightarrow> cacheLine_t list" where
  "ageOthers g addrSVal r c =
     map (\<lambda>k. if k \<in> lineIndex g addrSVal ` (set (lineCounters g) - {r})
                  \<and> bValidFlag (c ! k) = 1
               then (c ! k)\<lparr>iRank := iRank (c ! k) - 1\<rparr> else c ! k) [0 ..< length c]"

text \<open>The array after a hit on slot \<open>j\<close>, after a fill of slot \<open>j\<close>, after an eviction of slot \<open>j\<close>.\<close>

definition hitLines ::
  "globals \<Rightarrow> 32 word \<Rightarrow> 64 word \<Rightarrow> nat \<Rightarrow> cacheLine_t list \<Rightarrow> cacheLine_t list" where
  "hitLines g memAccessType addrSVal j c =
     (let k = lineIndex g addrSVal j;
          c1 = (if iRank (c ! k) \<noteq> iRecentAccessRankValue g
                then ageOthers g addrSVal j (c[k := (c ! k)\<lparr>iRank := iRecentAccessRankValue g\<rparr>])
                else c)
      in if memAccessType = 1 then c1[k := (c1 ! k)\<lparr>bDirtyFlag := 1\<rparr>] else c1)"

definition fillLines ::
  "globals \<Rightarrow> 32 word \<Rightarrow> 64 word \<Rightarrow> 64 word \<Rightarrow> nat \<Rightarrow> cacheLine_t list \<Rightarrow> cacheLine_t list" where
  "fillLines g memAccessType addrSVal addrTagVal j c =
     ageOthers g addrSVal j
       (c[lineIndex g addrSVal j :=
            filledLine g addrTagVal memAccessType (c ! lineIndex g addrSVal j)])"

definition evictLines ::
  "globals \<Rightarrow> 32 word \<Rightarrow> 64 word \<Rightarrow> 64 word \<Rightarrow> nat \<Rightarrow> cacheLine_t list \<Rightarrow> cacheLine_t list" where
  "evictLines g memAccessType addrSVal addrTagVal j c =
     ageOthers g addrSVal j
       (c[lineIndex g addrSVal j :=
            evictedLine g addrTagVal memAccessType (c ! lineIndex g addrSVal j)])"

text \<open>One access, written with the three searches instead of the loops.\<close>

definition accessResult ::
  "globals \<Rightarrow> sim_state \<Rightarrow> 32 word \<Rightarrow> 64 word \<Rightarrow> 64 word \<Rightarrow> sim_state" where
  "accessResult g st memAccessType addrSVal addrTagVal =
     (let c = cacheAddr st; s = stats st in
      case hitSlot g c addrSVal addrTagVal of
        Some j \<Rightarrow>
          \<lparr>cacheAddr = hitLines g memAccessType addrSVal j c, stats = s\<lparr>hits := hits s + 1\<rparr>\<rparr>
      | None \<Rightarrow>
         (case emptySlot g c addrSVal of
            Some j \<Rightarrow>
              \<lparr>cacheAddr = fillLines g memAccessType addrSVal addrTagVal j c,
               stats = s\<lparr>misses := misses s + 1\<rparr>\<rparr>
          | None \<Rightarrow>
             (case victimSlot g c addrSVal of
                Some j \<Rightarrow>
                  \<lparr>cacheAddr = evictLines g memAccessType addrSVal addrTagVal j c,
                   stats = s\<lparr>misses := misses s + 1, evictions := evictions s + 1\<rparr>\<rparr>
              | None \<Rightarrow>
                  \<lparr>cacheAddr = c,
                   stats = s\<lparr>misses := misses s + 1, evictions := evictions s + 1\<rparr>\<rparr>)))"

text \<open>
  The access kind that the most recent \<open>L\<close> or \<open>S\<close> record of a trace prefix stands for:
  1 for a store, 0 for a load, and 0 when the prefix has no such record.
\<close>

definition lastAccessKind :: "trace_record list \<Rightarrow> 32 word" where
  "lastAccessKind recs =
     (case filter (\<lambda>r. fst r = CHR ''L'' \<or> fst r = CHR ''S'') recs of
        [] \<Rightarrow> 0
      | r # rs \<Rightarrow> if fst (last (r # rs)) = CHR ''S'' then 1 else 0)"

text \<open>The value of \<open>iMemAccessTypeFlag\<close> after the trace loop has read some records.\<close>

fun carriedFlag :: "32 word \<Rightarrow> trace_record list \<Rightarrow> 32 word" where
  "carriedFlag f [] = f"
| "carriedFlag f (r # rs) =
     carriedFlag (if fst r = CHR ''L'' then 0 else if fst r = CHR ''S'' then 1 else f) rs"

section \<open>Concrete configurations\<close>

text \<open>
  A platform that reduces a shift count modulo the width, as x86-64 does, and on which
  every allocation succeeds.
\<close>

definition masking_platform :: platform where
  "masking_platform =
     \<lparr>shr_wide = (\<lambda>x n. drop_bit (n mod 64) x), shl_wide = (\<lambda>n. push_bit (n mod 32) 1),
      calloc_ok = (\<lambda>n. True)\<rparr>"

text \<open>The globals after \<open>-s s -E e -b b\<close> on that platform.\<close>

definition geometry :: "32 word \<Rightarrow> 32 word \<Rightarrow> 32 word \<Rightarrow> globals" where
  "geometry s e b =
     glob (optionLoop masking_platform [Opt_s s, Opt_E e, Opt_b b])"

text \<open>One set of three lines whose ranks are 0, 3 and 2.\<close>

definition aged_lines :: "cacheLine_t list" where
  "aged_lines =
     [\<lparr>iTag = 0, bDirtyFlag = 0, bValidFlag = 1, iRank = 0, dirtyEvictionCount = 0\<rparr>,
      \<lparr>iTag = 1, bDirtyFlag = 0, bValidFlag = 1, iRank = 3, dirtyEvictionCount = 0\<rparr>,
      \<lparr>iTag = 2, bDirtyFlag = 0, bValidFlag = 1, iRank = 2, dirtyEvictionCount = 0\<rparr>]"

text \<open>One set with one line, 16-byte blocks; the line holds tag 0 and is clean or dirty.\<close>

definition clean_line :: cacheLine_t where
  "clean_line = \<lparr>iTag = 0, bDirtyFlag = 0, bValidFlag = 1, iRank = 1, dirtyEvictionCount = 0\<rparr>"

definition dirty_line :: cacheLine_t where
  "dirty_line = \<lparr>iTag = 0, bDirtyFlag = 1, bValidFlag = 1, iRank = 1, dirtyEvictionCount = 0\<rparr>"

text \<open>Four sets of one line each, every line filled by a store.\<close>

definition four_dirty_lines :: "cacheLine_t list" where
  "four_dirty_lines =
     replicate 4 \<lparr>iTag = 0, bDirtyFlag = 1, bValidFlag = 1, iRank = 1, dirtyEvictionCount = 0\<rparr>"

section \<open>Address arithmetic\<close>

lemma maskLoop_mask: "maskLoop n (mask k) = mask (n + k)"
proof (induction n arbitrary: k)
  case 0 show ?case by simp
next
  case (Suc n)
  have "push_bit 1 (mask k) + 1 = (mask (Suc k) :: 64 word)"
    by (simp add: mask_eq_exp_minus_1 push_bit_eq_mult algebra_simps)
  then show ?case using Suc [of "Suc k"] by simp
qed

lemma maskLoop_0: "maskLoop n 0 = mask n"
  using maskLoop_mask [of n 0] by simp

lemma unat_2p32: "n < 32 \<Longrightarrow> unat (2 ^ n :: 32 word) = 2 ^ n"
proof -
  assume n: "n < 32"
  have "(2 ^ n :: 32 word) = of_nat (2 ^ n)" by simp
  then have "unat (2 ^ n :: 32 word) = 2 ^ n mod 2 ^ 32"
    by (simp only: unat_of_nat) simp
  moreover have "(2::nat) ^ n < 2 ^ 32" using n by (intro power_strict_increasing) simp_all
  ultimately show ?thesis by simp
qed

lemma unat_2p64: "n < 64 \<Longrightarrow> unat (2 ^ n :: 64 word) = 2 ^ n"
proof -
  assume n: "n < 64"
  have "(2 ^ n :: 64 word) = of_nat (2 ^ n)" by simp
  then have "unat (2 ^ n :: 64 word) = 2 ^ n mod 2 ^ LENGTH(64)"
    by (simp only: unat_of_nat) 
  moreover have "(2::nat) ^ n < 2 ^ 64" using n by (intro power_strict_increasing) simp_all
  ultimately show ?thesis by simp
qed

lemma unat_ucast_32_64: "unat (ucast (w :: 32 word) :: 64 word) = unat w"
proof -
  have "unat w < 2 ^ 32" using unsigned_less [of w] by simp
  then have "unat w < 2 ^ 64" by simp
  then show ?thesis by (simp add: unsigned_ucast_eq take_bit_nat_eq_self)
qed

lemma addrSValOf_less:
  assumes "unat (iSetBitCount g) < 64"
  shows "unat (addrSValOf p g a) < 2 ^ unat (iSetBitCount g)"
proof -
  have "addrSValOf p g a < 2 ^ unat (iSetBitCount g)"
    unfolding addrSValOf_def maskLoop_0 using assms by (intro and_mask_less') simp
  then show ?thesis using assms
    by (simp add: word_less_nat_alt unat_2p64)
qed

lemma lineIndex_eq:
  assumes "geometry_ok g" "unat sv < 2 ^ unat (iSetBitCount g)" "j < unat (iCacheLinesPerSet g)"
  shows "lineIndex g sv j = unat sv * unat (iCacheLinesPerSet g) + j"
proof -
  let ?E = "unat (iCacheLinesPerSet g)"
  have "unat sv * ?E + ?E \<le> 2 ^ unat (iSetBitCount g) * ?E"
    using assms(2) by (metis Suc_leI mult_Suc mult_le_mono1 add.commute)
  then have b: "unat sv * ?E + j < 2 ^ 32" using assms unfolding geometry_ok_def by linarith
  have j: "unat (of_nat j :: 64 word) = j" using b by (simp add: unat_of_nat)
  have m: "unat (sv * ucast (iCacheLinesPerSet g)) = unat sv * ?E"
    using b by (simp add: unat_word_ariths unat_ucast_32_64)
  show ?thesis unfolding lineIndex_def using b m j by (simp add: unat_word_ariths)
qed

lemma cacheLineTotal_eq:
  assumes "geometry_ok g"
  shows "cacheLineTotal g = 2 ^ unat (iSetBitCount g) * unat (iCacheLinesPerSet g)"
  using assms unfolding geometry_ok_def cacheLineTotal_def
  by (simp add: unat_word_ariths unat_2p32)

lemma lineIndex_less:
  assumes "geometry_ok g" "unat sv < 2 ^ unat (iSetBitCount g)" "j < unat (iCacheLinesPerSet g)"
  shows "lineIndex g sv j < cacheLineTotal g"
proof -
  let ?E = "unat (iCacheLinesPerSet g)"
  have "unat sv * ?E + ?E \<le> 2 ^ unat (iSetBitCount g) * ?E"
    using assms(2) by (metis Suc_leI mult_Suc mult_le_mono1 add.commute)
  then show ?thesis using assms by (simp add: lineIndex_eq cacheLineTotal_eq)
qed

lemma drop_bit_and_mask_64:
  "n \<le> 64 \<Longrightarrow> drop_bit n (x :: 64 word) AND mask (64 - n) = drop_bit n x"
  by (rule bit_word_eqI) (auto simp add: bit_simps dest: bit_imp_le_length)

lemma recombine_64:
  "push_bit (b + s) (drop_bit (b + s) (x :: 64 word)) OR push_bit b (drop_bit b x AND mask s)
     OR (x AND mask b) = x"
proof (rule bit_word_eqI)
  fix n
  assume n: "n < LENGTH(64)"
  consider "n < b" | "b \<le> n" "n < b + s" | "b + s \<le> n" by linarith
  then show "bit (push_bit (b + s) (drop_bit (b + s) x) OR push_bit b (drop_bit b x AND mask s)
     OR (x AND mask b)) n = bit x n"
  proof cases
    case 1
    then show ?thesis using n by (auto simp add: bit_simps)
  next
    case 2
    then show ?thesis using n by (auto simp add: bit_simps)
  next
    case 3
    then show ?thesis using n by (auto simp add: bit_simps)
  qed
qed

lemma bit_count_sums:
  assumes "unat (iSetBitCount g) + unat (iBlockBitCount g) \<le> 64"
  shows "unat (iBlockBitCount g + iSetBitCount g) = unat (iBlockBitCount g) + unat (iSetBitCount g)"
    and "unat (64 - (iSetBitCount g + iBlockBitCount g)) =
           64 - (unat (iBlockBitCount g) + unat (iSetBitCount g))"
proof -
  show 1: "unat (iBlockBitCount g + iSetBitCount g) = unat (iBlockBitCount g) + unat (iSetBitCount g)"
    using assms by (simp add: unat_word_ariths)
  have 2: "unat (iSetBitCount g + iBlockBitCount g) = unat (iBlockBitCount g) + unat (iSetBitCount g)"
    using assms by (simp add: unat_word_ariths)
  have "unat (64 :: 32 word) = 64" by simp
  then show "unat (64 - (iSetBitCount g + iBlockBitCount g)) =
           64 - (unat (iBlockBitCount g) + unat (iSetBitCount g))"
    using assms 2 by (simp add: unat_sub_if')
qed

lemma addrSValOf_eq:
  assumes "unat (iSetBitCount g) + unat (iBlockBitCount g) \<le> 64"
  shows "addrSValOf p g addr = drop_bit (unat (iBlockBitCount g)) addr AND mask (unat (iSetBitCount g))"
proof (cases "unat (iBlockBitCount g) < 64")
  case True
  then show ?thesis by (simp add: addrSValOf_def shr_ulong_def maskLoop_0)
next
  case False
  then have "unat (iBlockBitCount g) = 64" "unat (iSetBitCount g) = 0" using assms by simp_all
  then show ?thesis by (simp add: addrSValOf_def maskLoop_0)
qed

lemma addrTagValOf_eq:
  assumes "unat (iSetBitCount g) + unat (iBlockBitCount g) \<le> 64"
  shows "addrTagValOf p g addr = drop_bit (unat (iBlockBitCount g) + unat (iSetBitCount g)) addr"
proof (cases "unat (iBlockBitCount g) + unat (iSetBitCount g) < 64")
  case True
  then show ?thesis
    by (simp add: addrTagValOf_def shr_ulong_def maskLoop_0 bit_count_sums [OF assms]
        drop_bit_and_mask_64)
next
  case False
  then have e: "unat (iBlockBitCount g) + unat (iSetBitCount g) = 64" using assms by simp
  have "drop_bit 64 addr = 0" by (rule bit_word_eqI) (simp add: bit_simps)
  then show ?thesis by (simp add: addrTagValOf_def maskLoop_0 bit_count_sums [OF assms] e)
qed

section \<open>The concrete configurations evaluated\<close>

lemma geometry_simps:
  "geometry s e b =
     \<lparr>iSetBitCount = s, iSetCount = shl_one masking_platform s, iCacheLinesPerSet = e,
      iBlockBitCount = b, iBlocksPerLine = shl_one masking_platform b,
      iRecentAccessRankValue = e, bVerbose = False\<rparr>"
  by (simp add: geometry_def optionLoop_def initial_main_vars_def initial_globals_def)

lemma geometry_0_3_0:
  "geometry 0 3 0 =
     \<lparr>iSetBitCount = 0, iSetCount = 1, iCacheLinesPerSet = 3, iBlockBitCount = 0,
      iBlocksPerLine = 1, iRecentAccessRankValue = 3, bVerbose = False\<rparr>"
  by (simp add: geometry_simps shl_one_def)

lemma geometry_0_1_4:
  "geometry 0 1 4 =
     \<lparr>iSetBitCount = 0, iSetCount = 1, iCacheLinesPerSet = 1, iBlockBitCount = 4,
      iBlocksPerLine = 16, iRecentAccessRankValue = 1, bVerbose = False\<rparr>"
  by (simp add: geometry_simps shl_one_def)

lemma geometry_2_1_30:
  "geometry 2 1 30 =
     \<lparr>iSetBitCount = 2, iSetCount = 4, iCacheLinesPerSet = 1, iBlockBitCount = 30,
      iBlocksPerLine = 1073741824, iRecentAccessRankValue = 1, bVerbose = False\<rparr>"
  by (simp add: geometry_simps shl_one_def)

lemma geometry_ok_eval:
  "geometry_ok (geometry 0 3 0)" "geometry_ok (geometry 0 1 4)" "geometry_ok (geometry 1 2 0)"
  by (simp_all add: geometry_ok_def geometry_simps shl_one_def)

lemma geometry_ok_0_2_0: "geometry_ok (geometry 0 2 0)"
  by (simp add: geometry_ok_def geometry_simps shl_one_def)

lemma decompose_0_1_4:
  "addrSValOf masking_platform (geometry 0 1 4) 0 = 0"
  "addrTagValOf masking_platform (geometry 0 1 4) 0 = 0"
  "addrSValOf masking_platform (geometry 0 1 4) 16 = 0"
  "addrTagValOf masking_platform (geometry 0 1 4) 16 = 1"
  by (simp_all add: addrSValOf_eq addrTagValOf_eq geometry_simps mask_eq_exp_minus_1)

lemma decompose_0_2_0:
  "addrSValOf masking_platform (geometry 0 2 0) x = 0"
  "addrTagValOf masking_platform (geometry 0 2 0) x = x"
  by (simp_all add: addrSValOf_eq addrTagValOf_eq geometry_simps)

lemma upt_3: "[0..<3] = [0, 1, 2]" by (simp add: upt_rec)

lemma upt_small: "[0..<1] = [0]" "[0..<4] = [0, 1, 2, 3]"
  by (simp_all add: upt_rec)

lemma all_less_3: "(\<forall>j<(3::nat). P j) \<longleftrightarrow> P 0 \<and> P 1 \<and> P 2"
proof -
  have "j < 3 \<longleftrightarrow> j = 0 \<or> j = 1 \<or> j = 2" for j :: nat by arith
  then show ?thesis by auto
qed

lemma replicate_3: "replicate 3 x = [x, x, x]"
  by (simp add: numeral_3_eq_3)

lemma replicate_4: "replicate 4 x = [x, x, x, x]"
  by (simp add: numeral_eq_Suc)

lemma and_mask_64: "(x :: 64 word) AND mask 64 = x"
  by (rule bit_word_eqI) (simp add: bit_simps)

lemmas run_simps =
  checkSimulatorCache_def addrSValOf_def addrTagValOf_def shr_ulong_def maskLoop_0
  lineCounters_def lineIndex_def cacheMissHandler_def cacheEvictionHandler_def
  cacheLineRankUpdate_def filledLine_def evictedLine_def initial_state_def cacheLineTotal_def
  zero_line_def zero_stats_def Let_def and_mask_64



lemma slots_0_1_4:
  "hitSlot (geometry 0 1 4) [clean_line] 0 0 = Some 0"
  "hitSlot (geometry 0 1 4) [dirty_line] 0 1 = None"
  "emptySlot (geometry 0 1 4) [dirty_line] 0 = None"
  "victimSlot (geometry 0 1 4) [dirty_line] 0 = Some 0"
  "lineIndex (geometry 0 1 4) 0 0 = 0"
  "cacheLineTotal (geometry 0 1 4) = 1"
  by (simp_all add: hitSlot_def emptySlot_def victimSlot_def lineCounters_def lineIndex_def
      cacheLineTotal_def geometry_0_1_4 clean_line_def dirty_line_def)

lemma dirty_line_fields: "bDirtyFlag dirty_line = 1" "dirtyEvictionCount dirty_line = 0"
  by (simp_all add: dirty_line_def)

section \<open>The address decomposition\<close>

text \<open>
  C5.  For set-index and block-offset bit counts \<open>s\<close> and \<open>b\<close> with \<open>s + b \<le> 64\<close> and
  every 64-bit address, the set index computed is \<open>(addr >> b) & (2^s - 1)\<close> and the tag
  is \<open>addr >> (b + s)\<close>; the set index is below \<open>2^s\<close>, and
  \<open>(tag << (b + s)) | (setIndex << b) | (addr & (2^b - 1))\<close> is the address again.
\<close>

theorem C5_address_decomposition:
  assumes "unat (iSetBitCount g) + unat (iBlockBitCount g) \<le> 64"
  shows "addrSValOf p g addr = drop_bit (unat (iBlockBitCount g)) addr AND (2 ^ unat (iSetBitCount g) - 1)
    \<and> addrTagValOf p g addr = drop_bit (unat (iBlockBitCount g) + unat (iSetBitCount g)) addr
    \<and> unat (addrSValOf p g addr) < 2 ^ unat (iSetBitCount g)
    \<and> push_bit (unat (iBlockBitCount g) + unat (iSetBitCount g)) (addrTagValOf p g addr)
        OR push_bit (unat (iBlockBitCount g)) (addrSValOf p g addr)
        OR (addr AND (2 ^ unat (iBlockBitCount g) - 1)) = addr"
proof -
  let ?s = "unat (iSetBitCount g)" and ?b = "unat (iBlockBitCount g)"
  note sv = addrSValOf_eq [OF assms, of p addr] and tag = addrTagValOf_eq [OF assms, of p addr]
  have less: "unat (addrSValOf p g addr) < 2 ^ ?s"
  proof (cases "?s < 64")
    case True
    then show ?thesis by (rule addrSValOf_less)
  next
    case False
    then have "?s = 64" using assms by simp
    moreover have "unat (addrSValOf p g addr) < 2 ^ 64"
      using unsigned_less [of "addrSValOf p g addr"] by simp
    ultimately show ?thesis by simp
  qed
  show ?thesis unfolding tag using less recombine_64 [of ?b ?s addr] sv
    by (simp add: mask_eq_exp_minus_1)
qed

theorem C5_address_decomposition_witness:
  "unat (iSetBitCount (geometry 4 1 60)) + unat (iBlockBitCount (geometry 4 1 60)) \<le> 64
   \<and> addrSValOf masking_platform (geometry 4 1 60) 0xABCDEF0123456789 = 0xA
   \<and> addrTagValOf masking_platform (geometry 4 1 60) 0xABCDEF0123456789 = 0"
  using C5_address_decomposition [of "geometry 4 1 60" masking_platform "0xABCDEF0123456789"]
  by (simp add: geometry_simps)

section \<open>The loops as searches\<close>

subsection \<open>The rank update\<close>

lemma accessibleI:
  assumes "geometry_ok g" "unat sv < 2 ^ unat (iSetBitCount g)" "length c = cacheLineTotal g"
  shows "accessible g c sv"
proof -
  have "inj_on (lineIndex g sv) {0..<unat (iCacheLinesPerSet g)}"
    by (rule inj_onI) (use assms in \<open>simp add: lineIndex_eq\<close>)
  then show ?thesis using assms
    by (simp add: accessible_def lineCounters_def list_all_iff lineIndex_less distinct_map)
qed

lemma accessible_length: "length c' = length c \<Longrightarrow> accessible g c' sv = accessible g c sv"
  by (simp add: accessible_def)

lemma accessible_less: "accessible g c sv \<Longrightarrow> j < unat (iCacheLinesPerSet g) \<Longrightarrow> lineIndex g sv j < length c"
  by (simp add: accessible_def lineCounters_def list_all_iff)

lemma accessible_inj: "accessible g c sv \<Longrightarrow> i < unat (iCacheLinesPerSet g) \<Longrightarrow> j < unat (iCacheLinesPerSet g)
  \<Longrightarrow> lineIndex g sv i = lineIndex g sv j \<longleftrightarrow> i = j"
  by (auto simp add: accessible_def lineCounters_def distinct_map dest: inj_onD)

lemma rankUpdateLoop_eq:
  assumes "accessible g c sv" "distinct js" "set js \<subseteq> set (lineCounters g)"
  shows "rankUpdateLoop g sv r js c =
     Some (map (\<lambda>k. if k \<in> lineIndex g sv ` (set js - {r}) \<and> bValidFlag (c ! k) = 1
               then (c ! k)\<lparr>iRank := iRank (c ! k) - 1\<rparr> else c ! k) [0 ..< length c])"
  using assms
proof (induction js arbitrary: c)
  case Nil
  then show ?case by (simp add: map_nth)
next
  case (Cons i js)
  let ?k = "lineIndex g sv i"
  have iE: "i < unat (iCacheLinesPerSet g)" using Cons.prems by (simp add: lineCounters_def)
  have k: "?k < length c" using Cons.prems iE by (simp add: accessible_less)
  have notin: "?k \<notin> lineIndex g sv ` (set js - {r})"
  proof
    assume "?k \<in> lineIndex g sv ` (set js - {r})"
    then obtain j where j: "j \<in> set js" "lineIndex g sv i = lineIndex g sv j" by blast
    then have "j < unat (iCacheLinesPerSet g)" using Cons.prems by (auto simp add: lineCounters_def)
    then have "i = j" using j iE Cons.prems(1) by (simp add: accessible_inj)
    then show False using j Cons.prems by simp
  qed
  show ?case
  proof (cases "i = r")
    case True
    have "set (i # js) - {r} = set js - {r}" using True by auto
    then show ?thesis using True Cons by simp
  next
    case False
    let ?c1 = "if bValidFlag (c ! ?k) = 1 then c[?k := (c ! ?k)\<lparr>iRank := iRank (c ! ?k) - 1\<rparr>] else c"
    have len: "length ?c1 = length c" by simp
    have acc1: "accessible g ?c1 sv" using Cons.prems(1) by (simp add: accessible_def)
    have ih: "rankUpdateLoop g sv r js ?c1 =
       Some (map (\<lambda>k. if k \<in> lineIndex g sv ` (set js - {r}) \<and> bValidFlag (?c1 ! k) = 1
               then (?c1 ! k)\<lparr>iRank := iRank (?c1 ! k) - 1\<rparr> else ?c1 ! k) [0 ..< length ?c1])"
      using Cons.IH [OF acc1] Cons.prems by simp
    have img: "lineIndex g sv ` (set (i # js) - {r}) = insert ?k (lineIndex g sv ` (set js - {r}))"
      using False by auto
    have "map (\<lambda>k. if k \<in> lineIndex g sv ` (set js - {r}) \<and> bValidFlag (?c1 ! k) = 1
               then (?c1 ! k)\<lparr>iRank := iRank (?c1 ! k) - 1\<rparr> else ?c1 ! k) [0 ..< length ?c1]
        = map (\<lambda>k. if k \<in> lineIndex g sv ` (set (i # js) - {r}) \<and> bValidFlag (c ! k) = 1
               then (c ! k)\<lparr>iRank := iRank (c ! k) - 1\<rparr> else c ! k) [0 ..< length c]"
      unfolding img len
      by (rule map_cong [OF refl]) (use notin k in \<open>auto simp add: nth_list_update\<close>)
    then show ?thesis using False k ih by (simp add: Let_def)
  qed
qed

lemma cacheLineRankUpdate_eq:
  assumes "accessible g c sv"
  shows "cacheLineRankUpdate g c sv r = Some (ageOthers g sv r c)"
  unfolding cacheLineRankUpdate_def ageOthers_def
  using rankUpdateLoop_eq [OF assms, of "lineCounters g" r]
  by (simp add: lineCounters_def)

lemma length_ageOthers [simp]: "length (ageOthers g sv r c) = length c"
  by (simp add: ageOthers_def)

lemma nth_ageOthers:
  "k < length c \<Longrightarrow> ageOthers g sv r c ! k =
     (if k \<in> lineIndex g sv ` (set (lineCounters g) - {r}) \<and> bValidFlag (c ! k) = 1
      then (c ! k)\<lparr>iRank := iRank (c ! k) - 1\<rparr> else c ! k)"
  by (simp add: ageOthers_def)

subsection \<open>The hit, miss and eviction loops\<close>

lemma hitLoop_eq:
  assumes "accessible g (cacheAddr st) sv" "set js \<subseteq> set (lineCounters g)"
  shows "hitLoop g a sv tag js st =
     Some (case find (\<lambda>j. iTag (cacheAddr st ! lineIndex g sv j) = tag
                         \<and> bValidFlag (cacheAddr st ! lineIndex g sv j) \<noteq> 0) js of
             None \<Rightarrow> (False, st)
           | Some j \<Rightarrow> (True, \<lparr>cacheAddr = hitLines g a sv j (cacheAddr st),
                                stats = (stats st)\<lparr>hits := hits (stats st) + 1\<rparr>\<rparr>))"
  using assms
proof (induction js)
  case Nil
  then show ?case by simp
next
  case (Cons j js)
  have jE: "j < unat (iCacheLinesPerSet g)" using Cons.prems by (simp add: lineCounters_def)
  have k: "lineIndex g sv j < length (cacheAddr st)" using Cons.prems jE by (simp add: accessible_less)
  have acc: "accessible g ((cacheAddr st)[lineIndex g sv j := l]) sv" for l
    using Cons.prems(1) by (simp add: accessible_def)
  show ?case using Cons k
    by (simp add: Let_def hitLines_def cacheLineRankUpdate_eq [OF acc])
qed

lemma missLoop_eq:
  assumes "accessible g c sv" "set js \<subseteq> set (lineCounters g)"
  shows "missLoop g sv tag a js ev c =
     Some (case find (\<lambda>j. bValidFlag (c ! lineIndex g sv j) = 0) js of
             None \<Rightarrow> (ev \<or> js \<noteq> [], c)
           | Some j \<Rightarrow> (False, fillLines g a sv tag j c))"
  using assms
proof (induction js arbitrary: ev)
  case Nil
  then show ?case by simp
next
  case (Cons j js)
  have jE: "j < unat (iCacheLinesPerSet g)" using Cons.prems by (simp add: lineCounters_def)
  have k: "lineIndex g sv j < length c" using Cons.prems jE by (simp add: accessible_less)
  have acc: "accessible g (c[lineIndex g sv j := l]) sv" for l
    using Cons.prems(1) by (simp add: accessible_def)
  show ?case using Cons k
    by (simp add: Let_def fillLines_def cacheLineRankUpdate_eq [OF acc] split: option.split)
qed

lemma evictLoop_eq:
  assumes "accessible g c sv" "set js \<subseteq> set (lineCounters g)"
  shows "evictLoop g sv tag a js c =
     Some (case find (\<lambda>j. iRank (c ! lineIndex g sv j) = 1) js of
             None \<Rightarrow> c
           | Some j \<Rightarrow> evictLines g a sv tag j c)"
  using assms
proof (induction js)
  case Nil
  then show ?case by simp
next
  case (Cons j js)
  have jE: "j < unat (iCacheLinesPerSet g)" using Cons.prems by (simp add: lineCounters_def)
  have k: "lineIndex g sv j < length c" using Cons.prems jE by (simp add: accessible_less)
  have acc: "accessible g (c[lineIndex g sv j := l]) sv" for l
    using Cons.prems(1) by (simp add: accessible_def)
  show ?case using Cons k
    by (simp add: Let_def evictLines_def cacheLineRankUpdate_eq [OF acc])
qed

lemma lineCounters_nonempty: "geometry_ok g \<Longrightarrow> lineCounters g \<noteq> []"
  by (simp add: geometry_ok_def lineCounters_def)

lemma cacheEvictionHandler_eq:
  assumes "accessible g (cacheAddr st) sv"
  shows "cacheEvictionHandler g st sv tag a =
     Some (case victimSlot g (cacheAddr st) sv of
             None \<Rightarrow> st\<lparr>stats := (stats st)\<lparr>evictions := evictions (stats st) + 1\<rparr>\<rparr>
           | Some j \<Rightarrow> \<lparr>cacheAddr = evictLines g a sv tag j (cacheAddr st),
                         stats = (stats st)\<lparr>evictions := evictions (stats st) + 1\<rparr>\<rparr>)"
  using assms
  by (simp add: cacheEvictionHandler_def victimSlot_def evictLoop_eq split: option.split)

lemma cacheMissHandler_eq:
  assumes "accessible g (cacheAddr st) sv" "lineCounters g \<noteq> []"
  shows "cacheMissHandler g st sv tag a =
     Some (case emptySlot g (cacheAddr st) sv of
             Some j \<Rightarrow> \<lparr>cacheAddr = fillLines g a sv tag j (cacheAddr st),
                         stats = (stats st)\<lparr>misses := misses (stats st) + 1\<rparr>\<rparr>
           | None \<Rightarrow>
              (case victimSlot g (cacheAddr st) sv of
                 Some j \<Rightarrow> \<lparr>cacheAddr = evictLines g a sv tag j (cacheAddr st),
                             stats = (stats st)\<lparr>misses := misses (stats st) + 1,
                                                evictions := evictions (stats st) + 1\<rparr>\<rparr>
               | None \<Rightarrow> \<lparr>cacheAddr = cacheAddr st,
                           stats = (stats st)\<lparr>misses := misses (stats st) + 1,
                                              evictions := evictions (stats st) + 1\<rparr>\<rparr>))"
  using assms
  by (simp add: cacheMissHandler_def emptySlot_def missLoop_eq cacheEvictionHandler_eq
      split: option.split)

lemma access_eq:
  assumes "accessible g (cacheAddr st) (addrSValOf p g addr)" "lineCounters g \<noteq> []"
  shows "checkSimulatorCache p g st a addr =
     Some (accessResult g st a (addrSValOf p g addr) (addrTagValOf p g addr))"
  using assms
  by (simp add: checkSimulatorCache_def accessResult_def hitSlot_def hitLoop_eq cacheMissHandler_eq
      Let_def split: option.split)

lemma checkSimulatorCache_eq:
  assumes "geometry_ok g" "length (cacheAddr st) = cacheLineTotal g"
  shows "checkSimulatorCache p g st a addr =
     Some (accessResult g st a (addrSValOf p g addr) (addrTagValOf p g addr))"
proof -
  have "unat (addrSValOf p g addr) < 2 ^ unat (iSetBitCount g)"
    using assms(1) by (intro addrSValOf_less) (simp add: geometry_ok_def)
  then show ?thesis using assms
    by (intro access_eq accessibleI lineCounters_nonempty)
qed

section \<open>One access, field by field\<close>

subsection \<open>The fields of the lines after an access\<close>

lemma nth_update_if: "k < length c \<Longrightarrow> c[i := x] ! k = (if k = i then x else c ! k)"
  by (auto simp add: nth_list_update)

lemma ageOthers_fields:
  assumes "k < length c"
  shows "iTag (ageOthers g sv r c ! k) = iTag (c ! k)"
    and "bValidFlag (ageOthers g sv r c ! k) = bValidFlag (c ! k)"
    and "bDirtyFlag (ageOthers g sv r c ! k) = bDirtyFlag (c ! k)"
    and "dirtyEvictionCount (ageOthers g sv r c ! k) = dirtyEvictionCount (c ! k)"
  using assms by (simp_all add: nth_ageOthers)

lemma length_hitLines [simp]: "length (hitLines g a sv j c) = length c"
  by (simp add: hitLines_def Let_def)

lemma length_fillLines [simp]: "length (fillLines g a sv tag j c) = length c"
  by (simp add: fillLines_def)

lemma length_evictLines [simp]: "length (evictLines g a sv tag j c) = length c"
  by (simp add: evictLines_def)

lemma hitLines_fields:
  assumes "k < length c"
  shows "iTag (hitLines g a sv j c ! k) = iTag (c ! k)"
    and "bValidFlag (hitLines g a sv j c ! k) = bValidFlag (c ! k)"
    and "dirtyEvictionCount (hitLines g a sv j c ! k) = dirtyEvictionCount (c ! k)"
    and "bDirtyFlag (hitLines g a sv j c ! k) =
           (if k = lineIndex g sv j \<and> a = 1 then 1 else bDirtyFlag (c ! k))"
  using assms by (simp_all add: hitLines_def Let_def nth_update_if ageOthers_fields)

lemma fillLines_fields:
  assumes "k < length c"
  shows "iTag (fillLines g a sv tag j c ! k) = (if k = lineIndex g sv j then tag else iTag (c ! k))"
    and "bValidFlag (fillLines g a sv tag j c ! k) =
           (if k = lineIndex g sv j then 1 else bValidFlag (c ! k))"
    and "dirtyEvictionCount (fillLines g a sv tag j c ! k) = dirtyEvictionCount (c ! k)"
    and "bDirtyFlag (fillLines g a sv tag j c ! k) =
           (if k = lineIndex g sv j then (if a = 1 then 1 else 0) else bDirtyFlag (c ! k))"
  using assms
  by (simp_all add: fillLines_def filledLine_def Let_def nth_update_if ageOthers_fields)

lemma evictLines_fields:
  assumes "k < length c"
  shows "iTag (evictLines g a sv tag j c ! k) = (if k = lineIndex g sv j then tag else iTag (c ! k))"
    and "bValidFlag (evictLines g a sv tag j c ! k) = bValidFlag (c ! k)"
    and "dirtyEvictionCount (evictLines g a sv tag j c ! k) =
           (if k = lineIndex g sv j \<and> bDirtyFlag (c ! k) = 1
            then dirtyEvictionCount (c ! k) + 1 else dirtyEvictionCount (c ! k))"
    and "bDirtyFlag (evictLines g a sv tag j c ! k) =
           (if k = lineIndex g sv j then (if a = 0 then 0 else 1) else bDirtyFlag (c ! k))"
  using assms
  by (simp_all add: evictLines_def evictedLine_def Let_def nth_update_if ageOthers_fields)

lemma length_accessResult [simp]:
  "length (cacheAddr (accessResult g st a sv tag)) = length (cacheAddr st)"
  by (simp add: accessResult_def Let_def split: option.split)

subsection \<open>The searches\<close>

lemma find_upt_Some:
  "find P [0..<n] = Some j \<longleftrightarrow> j < n \<and> P j \<and> (\<forall>i<j. \<not> P i)"
  by (auto simp add: find_Some_iff)

lemma find_upt_None: "find P [0..<n] = None \<longleftrightarrow> (\<forall>j<n. \<not> P j)"
  by (auto simp add: find_None_iff)

lemma hitSlot_Some:
  "hitSlot g c sv tag = Some j \<longleftrightarrow>
     j < unat (iCacheLinesPerSet g) \<and> iTag (c ! lineIndex g sv j) = tag
     \<and> bValidFlag (c ! lineIndex g sv j) \<noteq> 0
     \<and> (\<forall>i<j. \<not> (iTag (c ! lineIndex g sv i) = tag \<and> bValidFlag (c ! lineIndex g sv i) \<noteq> 0))"
  by (simp add: hitSlot_def lineCounters_def find_upt_Some)

lemma hitSlot_None:
  "hitSlot g c sv tag = None \<longleftrightarrow>
     (\<forall>j < unat (iCacheLinesPerSet g).
        \<not> (iTag (c ! lineIndex g sv j) = tag \<and> bValidFlag (c ! lineIndex g sv j) \<noteq> 0))"
  by (simp add: hitSlot_def lineCounters_def find_upt_None)

lemma emptySlot_Some:
  "emptySlot g c sv = Some j \<longleftrightarrow>
     j < unat (iCacheLinesPerSet g) \<and> bValidFlag (c ! lineIndex g sv j) = 0
     \<and> (\<forall>i<j. bValidFlag (c ! lineIndex g sv i) \<noteq> 0)"
  by (simp add: emptySlot_def lineCounters_def find_upt_Some)

lemma emptySlot_None:
  "emptySlot g c sv = None \<longleftrightarrow>
     (\<forall>j < unat (iCacheLinesPerSet g). bValidFlag (c ! lineIndex g sv j) \<noteq> 0)"
  by (simp add: emptySlot_def lineCounters_def find_upt_None)

lemma victimSlot_Some:
  "victimSlot g c sv = Some j \<longleftrightarrow>
     j < unat (iCacheLinesPerSet g) \<and> iRank (c ! lineIndex g sv j) = 1
     \<and> (\<forall>i<j. iRank (c ! lineIndex g sv i) \<noteq> 1)"
  by (simp add: victimSlot_def lineCounters_def find_upt_Some)

lemma victimSlot_None:
  "victimSlot g c sv = None \<longleftrightarrow>
     (\<forall>j < unat (iCacheLinesPerSet g). iRank (c ! lineIndex g sv j) \<noteq> 1)"
  by (simp add: victimSlot_def lineCounters_def find_upt_None)

lemma resident_slot:
  "j < unat (iCacheLinesPerSet g) \<Longrightarrow> iTag (c ! lineIndex g sv j) = tag \<Longrightarrow>
   bValidFlag (c ! lineIndex g sv j) \<noteq> 0 \<Longrightarrow> resident g c sv tag"
  unfolding resident_def hitSlot_None by blast

subsection \<open>The four outcomes of an access\<close>

lemma accessResult_hit:
  "hitSlot g (cacheAddr st) sv tag = Some j \<Longrightarrow>
   accessResult g st a sv tag =
     \<lparr>cacheAddr = hitLines g a sv j (cacheAddr st),
      stats = (stats st)\<lparr>hits := hits (stats st) + 1\<rparr>\<rparr>"
  by (simp add: accessResult_def Let_def)

lemma accessResult_fill:
  "hitSlot g (cacheAddr st) sv tag = None \<Longrightarrow> emptySlot g (cacheAddr st) sv = Some j \<Longrightarrow>
   accessResult g st a sv tag =
     \<lparr>cacheAddr = fillLines g a sv tag j (cacheAddr st),
      stats = (stats st)\<lparr>misses := misses (stats st) + 1\<rparr>\<rparr>"
  by (simp add: accessResult_def Let_def)

lemma accessResult_evict:
  "hitSlot g (cacheAddr st) sv tag = None \<Longrightarrow> emptySlot g (cacheAddr st) sv = None \<Longrightarrow>
   victimSlot g (cacheAddr st) sv = Some j \<Longrightarrow>
   accessResult g st a sv tag =
     \<lparr>cacheAddr = evictLines g a sv tag j (cacheAddr st),
      stats = (stats st)\<lparr>misses := misses (stats st) + 1,
                         evictions := evictions (stats st) + 1\<rparr>\<rparr>"
  by (simp add: accessResult_def Let_def)

lemma accessResult_stuck:
  "hitSlot g (cacheAddr st) sv tag = None \<Longrightarrow> emptySlot g (cacheAddr st) sv = None \<Longrightarrow>
   victimSlot g (cacheAddr st) sv = None \<Longrightarrow>
   accessResult g st a sv tag =
     \<lparr>cacheAddr = cacheAddr st,
      stats = (stats st)\<lparr>misses := misses (stats st) + 1,
                         evictions := evictions (stats st) + 1\<rparr>\<rparr>"
  by (simp add: accessResult_def Let_def)

lemma accessResult_counts:
  "hits (stats (accessResult g st a sv tag)) + misses (stats (accessResult g st a sv tag)) =
     hits (stats st) + misses (stats st) + 1"
  by (simp add: accessResult_def Let_def split: option.split)

lemma summary_fields_access:
  "dirty_bytes (stats (accessResult g st a sv tag)) = dirty_bytes (stats st)"
  "dirty_evictions (stats (accessResult g st a sv tag)) = dirty_evictions (stats st)"
  by (simp_all add: accessResult_def Let_def split: option.split)

subsection \<open>Tags and valid flags after an access\<close>

text \<open>
  An access changes the tag or the valid flag of at most one line; that line is in
  the addressed set, it then holds the requested tag and is valid, and the requested tag
  was in no valid line of the set before.
\<close>

lemma access_tag_valid:
  "\<exists>K. (K = {} \<or> (\<exists>j < unat (iCacheLinesPerSet g).
                  K = {lineIndex g sv j} \<and> hitSlot g (cacheAddr st) sv tag = None))
     \<and> (\<forall>k < length (cacheAddr st).
          if k \<in> K
          then iTag (cacheAddr (accessResult g st a sv tag) ! k) = tag
             \<and> bValidFlag (cacheAddr (accessResult g st a sv tag) ! k) \<noteq> 0
          else iTag (cacheAddr (accessResult g st a sv tag) ! k) = iTag (cacheAddr st ! k)
             \<and> bValidFlag (cacheAddr (accessResult g st a sv tag) ! k)
                 = bValidFlag (cacheAddr st ! k))"
proof (cases "hitSlot g (cacheAddr st) sv tag")
  case (Some j)
  then show ?thesis
    by (intro exI [of _ "{}"]) (simp add: accessResult_hit hitLines_fields)
next
  case None
  note hit = this
  show ?thesis
  proof (cases "emptySlot g (cacheAddr st) sv")
    case (Some j)
    then have "j < unat (iCacheLinesPerSet g)" by (simp add: emptySlot_Some)
    then show ?thesis using hit Some
      by (intro exI [of _ "{lineIndex g sv j}"]) (auto simp add: accessResult_fill fillLines_fields)
  next
    case None
    note empty = this
    show ?thesis
    proof (cases "victimSlot g (cacheAddr st) sv")
      case None
      then show ?thesis using hit empty
        by (intro exI [of _ "{}"]) (simp add: accessResult_stuck)
    next
      case (Some j)
      then have j: "j < unat (iCacheLinesPerSet g)" by (simp add: victimSlot_Some)
      then have "bValidFlag (cacheAddr st ! lineIndex g sv j) \<noteq> 0"
        using empty by (simp add: emptySlot_None)
      then show ?thesis using hit empty Some j
        by (intro exI [of _ "{lineIndex g sv j}"]) (auto simp add: accessResult_evict evictLines_fields)
    qed
  qed
qed

subsection \<open>Ranks after an access\<close>

lemma lineIndex_image_iff:
  assumes "accessible g c sv" "i < unat (iCacheLinesPerSet g)"
  shows "lineIndex g sv i \<in> lineIndex g sv ` (set (lineCounters g) - {j}) \<longleftrightarrow> i \<noteq> j"
proof
  assume "lineIndex g sv i \<in> lineIndex g sv ` (set (lineCounters g) - {j})"
  then obtain i' where mem: "i' \<in> set (lineCounters g) - {j}"
    and e: "lineIndex g sv i = lineIndex g sv i'" by blast
  from mem have i': "i' < unat (iCacheLinesPerSet g)" "i' \<noteq> j"
    by (simp_all add: lineCounters_def)
  then have "i = i'" using assms e by (simp add: accessible_inj)
  then show "i \<noteq> j" using i' by simp
next
  assume "i \<noteq> j"
  then show "lineIndex g sv i \<in> lineIndex g sv ` (set (lineCounters g) - {j})"
    using assms(2) by (simp add: lineCounters_def)
qed

lemma fillLines_rank:
  assumes "accessible g c sv" "i < unat (iCacheLinesPerSet g)" "j < unat (iCacheLinesPerSet g)"
  shows "iRank (fillLines g a sv tag j c ! lineIndex g sv i) =
     (if i = j then iRecentAccessRankValue g
      else if bValidFlag (c ! lineIndex g sv i) = 1 then iRank (c ! lineIndex g sv i) - 1
      else iRank (c ! lineIndex g sv i))"
proof -
  have k: "lineIndex g sv i < length c" "lineIndex g sv j < length c"
    using assms by (simp_all add: accessible_less)
  have acc: "accessible g (c[lineIndex g sv j := l]) sv" for l
    using assms(1) by (simp add: accessible_def)
  show ?thesis using k assms
    by (simp add: fillLines_def nth_ageOthers lineIndex_image_iff [OF acc] nth_update_if
        accessible_inj filledLine_def Let_def)
qed

lemma hitLines_rank:
  assumes "accessible g c sv" "j < unat (iCacheLinesPerSet g)"
  shows "iRank (hitLines g a sv j c ! lineIndex g sv j) = iRecentAccessRankValue g"
proof -
  have k: "lineIndex g sv j < length c" using assms by (simp add: accessible_less)
  have acc: "accessible g (c[lineIndex g sv j := l]) sv" for l
    using assms(1) by (simp add: accessible_def)
  show ?thesis using k assms
    by (simp add: hitLines_def nth_ageOthers lineIndex_image_iff [OF acc] nth_update_if Let_def)
qed

section \<open>Evictions without a line of rank one\<close>

text \<open>
  C10.  When no line of the set has rank 1, \<open>cacheEvictionHandler\<close> adds one to the
  eviction counter and changes nothing else: the array of lines is returned as it was.
\<close>

theorem C10_eviction_without_rank_one:
  assumes "accessible g (cacheAddr st) addrSVal"
    and "\<forall>j < unat (iCacheLinesPerSet g). iRank (cacheAddr st ! lineIndex g addrSVal j) \<noteq> 1"
  shows "cacheEvictionHandler g st addrSVal addrTagVal memAccessType =
     Some (st\<lparr>stats := (stats st)\<lparr>evictions := evictions (stats st) + 1\<rparr>\<rparr>)"
proof -
  have "victimSlot g (cacheAddr st) addrSVal = None"
    using assms(2) by (simp add: victimSlot_def find_None_iff lineCounters_def)
  then show ?thesis using assms(1) by (simp add: cacheEvictionHandler_eq)
qed

theorem C10_eviction_without_rank_one_witness:
  "cacheEvictionHandler (geometry 0 3 0) \<lparr>cacheAddr = aged_lines, stats = zero_stats\<rparr> 0 3 0 =
     Some \<lparr>cacheAddr = aged_lines, stats = zero_stats\<lparr>evictions := 1\<rparr>\<rparr>"
proof -
  let ?st = "\<lparr>cacheAddr = aged_lines, stats = zero_stats\<rparr>"
  have a: "accessible (geometry 0 3 0) (cacheAddr ?st) 0"
    by (simp add: accessible_def geometry_simps lineCounters_def lineIndex_def aged_lines_def upt_3)
  have b: "\<forall>j < unat (iCacheLinesPerSet (geometry 0 3 0)).
     iRank (cacheAddr ?st ! lineIndex (geometry 0 3 0) 0 j) \<noteq> 1"
    by (simp add: geometry_simps lineIndex_def aged_lines_def all_less_3)
  show ?thesis using C10_eviction_without_rank_one [OF a b, of 3 0]
    by (simp add: zero_stats_def)
qed

section \<open>A trace on which the ranks leave their range\<close>

lemma aged_lines_reached:
  "traceLoop masking_platform (geometry 0 3 0)
     [(CHR ''L'', 0, 1), (CHR ''L'', 1, 1), (CHR ''L'', 2, 1), (CHR ''L'', 1, 1)] 0
     (initial_state (geometry 0 3 0)) =
   Some \<lparr>cacheAddr = aged_lines,
         stats = \<lparr>hits = 1, misses = 3, evictions = 0, dirty_bytes = 0, dirty_evictions = 0\<rparr>\<rparr>"
  by (simp add: geometry_0_3_0 run_simps upt_3 replicate_3 aged_lines_def)

lemma aged_lines_miss:
  "checkSimulatorCache masking_platform (geometry 0 3 0)
     \<lparr>cacheAddr = aged_lines,
      stats = \<lparr>hits = 1, misses = 3, evictions = 0, dirty_bytes = 0, dirty_evictions = 0\<rparr>\<rparr> 0 3 =
   Some \<lparr>cacheAddr = aged_lines,
         stats = \<lparr>hits = 1, misses = 4, evictions = 1, dirty_bytes = 0, dirty_evictions = 0\<rparr>\<rparr>"
  by (simp add: geometry_0_3_0 run_simps upt_3 aged_lines_def)

text \<open>
  C1 fails on the code.  With one set of three lines (\<open>-s 0 -E 3 -b 0\<close>) the loads of
  addresses 0, 1, 2, 1 leave a full set whose ranks are 0, 3 and 2.  The load of address
  3 that follows is a miss, no slot is invalid and no line has rank 1: the access counts
  a miss and an eviction, leaves every line as it was, and tag 3 is not resident
  afterwards.
\<close>

theorem C1_miss_leaves_tag_absent:
  "traceLoop masking_platform (geometry 0 3 0)
     [(CHR ''L'', 0, 1), (CHR ''L'', 1, 1), (CHR ''L'', 2, 1), (CHR ''L'', 1, 1)] 0
     (initial_state (geometry 0 3 0)) =
   Some \<lparr>cacheAddr = aged_lines,
         stats = \<lparr>hits = 1, misses = 3, evictions = 0, dirty_bytes = 0, dirty_evictions = 0\<rparr>\<rparr>
   \<and> checkSimulatorCache masking_platform (geometry 0 3 0)
     \<lparr>cacheAddr = aged_lines,
      stats = \<lparr>hits = 1, misses = 3, evictions = 0, dirty_bytes = 0, dirty_evictions = 0\<rparr>\<rparr> 0 3 =
   Some \<lparr>cacheAddr = aged_lines,
         stats = \<lparr>hits = 1, misses = 4, evictions = 1, dirty_bytes = 0, dirty_evictions = 0\<rparr>\<rparr>
   \<and> addrSValOf masking_platform (geometry 0 3 0) 3 = 0
   \<and> addrTagValOf masking_platform (geometry 0 3 0) 3 = 3
   \<and> \<not> resident (geometry 0 3 0) aged_lines 0 3"
  using aged_lines_reached aged_lines_miss
  by (simp add: resident_def hitSlot_def geometry_0_3_0 lineCounters_def lineIndex_def upt_3
      aged_lines_def addrSValOf_def addrTagValOf_def shr_ulong_def maskLoop_0 and_mask_64)

text \<open>
  C2 fails on the code.  After the loads of addresses 0, 1, 2, 1 with one set of three
  lines, the three valid lines have ranks 0, 3 and 2: the hit on the line of rank 2
  decremented the line of rank 1 as well, so the ranks are no range ending at 3.
\<close>

theorem C2_ranks_not_contiguous:
  "traceLoop masking_platform (geometry 0 3 0)
     [(CHR ''L'', 0, 1), (CHR ''L'', 1, 1), (CHR ''L'', 2, 1), (CHR ''L'', 1, 1)] 0
     (initial_state (geometry 0 3 0)) =
   Some \<lparr>cacheAddr = aged_lines,
         stats = \<lparr>hits = 1, misses = 3, evictions = 0, dirty_bytes = 0, dirty_evictions = 0\<rparr>\<rparr>
   \<and> validRanks (geometry 0 3 0) aged_lines 0 = [0, 3, 2]
   \<and> \<not> rankTotality (geometry 0 3 0) aged_lines 0"
proof -
  have r: "validRanks (geometry 0 3 0) aged_lines 0 = [0, 3, 2]"
    by (simp add: validRanks_def geometry_0_3_0 lineCounters_def lineIndex_def upt_3 aged_lines_def)
  have "(1::nat) \<in> {Suc 3 - 3 ..< Suc 3}" by simp
  moreover have "(1::nat) \<notin> set [0, 3, 2]" by simp
  ultimately have "set [0, 3, 2] \<noteq> {Suc 3 - 3 ..< Suc (3::nat)}" by blast
  then have "\<not> rankTotality (geometry 0 3 0) aged_lines 0"
    unfolding rankTotality_def r by (simp add: geometry_0_3_0)
  then show ?thesis using aged_lines_reached r by simp
qed

section \<open>The trace loop\<close>

subsection \<open>The flag carried through the loop\<close>

lemma traceLoop_append:
  "traceLoop p g (xs @ ys) f st =
     (case traceLoop p g xs f st of None \<Rightarrow> None
      | Some st1 \<Rightarrow> traceLoop p g ys (carriedFlag f xs) st1)"
proof (induction xs arbitrary: f st)
  case Nil
  show ?case by simp
next
  case (Cons r xs)
  obtain ch a sz where r: "r = (ch, a, sz)" by (cases r)
  show ?case unfolding r using Cons.IH
    by (simp add: Let_def split: option.split)
qed

lemma carriedFlag_filter:
  "carriedFlag f xs =
     (case filter (\<lambda>r. fst r = CHR ''L'' \<or> fst r = CHR ''S'') xs of
        [] \<Rightarrow> f
      | r # rs \<Rightarrow> if fst (last (r # rs)) = CHR ''S'' then 1 else 0)"
proof (induction xs arbitrary: f)
  case Nil
  show ?case by simp
next
  case (Cons r xs)
  show ?case unfolding carriedFlag.simps Cons.IH
    by (auto split: list.split)
qed

lemma carriedFlag_kind: "carriedFlag 0 xs = lastAccessKind xs"
  unfolding lastAccessKind_def by (rule carriedFlag_filter)

lemma traceLoop_other_record:
  assumes "ch \<noteq> CHR ''L''" and "ch \<noteq> CHR ''S''"
  shows "traceLoop p g (pre @ (ch, addr, sz) # post) 0 st =
     (case traceLoop p g pre 0 st of
        None \<Rightarrow> None
      | Some st1 \<Rightarrow>
         (case checkSimulatorCache p g st1 (lastAccessKind pre) addr of
            None \<Rightarrow> None
          | Some st2 \<Rightarrow> traceLoop p g post (lastAccessKind pre) st2))"
  using assms by (simp add: traceLoop_append carriedFlag_kind split: option.split)

subsection \<open>Replaying a trace keeps an invariant of single accesses\<close>

lemma length_initial_state [simp]: "length (cacheAddr (initial_state g)) = cacheLineTotal g"
  by (simp add: initial_state_def)

lemma traceLoop_invariant:
  assumes g: "geometry_ok g"
    and step: "\<And>st a sv tag. I st \<Longrightarrow> length (cacheAddr st) = cacheLineTotal g \<Longrightarrow>
        unat sv < 2 ^ unat (iSetBitCount g) \<Longrightarrow> I (accessResult g st a sv tag)"
    and init: "I st" "length (cacheAddr st) = cacheLineTotal g"
  shows "\<exists>st'. traceLoop p g recs f st = Some st' \<and> I st'
     \<and> length (cacheAddr st') = cacheLineTotal g"
  using init
proof (induction recs arbitrary: f st)
  case Nil
  then show ?case by simp
next
  case (Cons r recs)
  obtain ch addr sz where r: "r = (ch, addr, sz)" by (cases r)
  let ?f = "if ch = CHR ''L'' then 0 else if ch = CHR ''S'' then 1 else f"
  let ?st = "accessResult g st ?f (addrSValOf p g addr) (addrTagValOf p g addr)"
  have sv: "unat (addrSValOf p g addr) < 2 ^ unat (iSetBitCount g)"
    using g by (intro addrSValOf_less) (simp add: geometry_ok_def)
  have 1: "checkSimulatorCache p g st ?f addr = Some ?st"
    using g Cons.prems(2) by (rule checkSimulatorCache_eq)
  have 2: "I ?st" using Cons.prems sv by (intro step)
  have 3: "length (cacheAddr ?st) = cacheLineTotal g" using Cons.prems by simp
  from Cons.IH [OF 2 3, of ?f] show ?case unfolding r using 1 by (simp add: Let_def)
qed

subsection \<open>Every record is counted as a hit or as a miss\<close>

lemma traceLoop_counts:
  assumes g: "geometry_ok g"
  shows "length (cacheAddr st) = cacheLineTotal g \<Longrightarrow>
     \<exists>st'. traceLoop p g recs f st = Some st' \<and> length (cacheAddr st') = cacheLineTotal g
       \<and> hits (stats st') + misses (stats st') = hits (stats st) + misses (stats st) + of_nat (length recs)"
proof (induction recs arbitrary: f st)
  case Nil
  then show ?case by simp
next
  case (Cons r recs)
  obtain ch addr sz where r: "r = (ch, addr, sz)" by (cases r)
  let ?f = "if ch = CHR ''L'' then 0 else if ch = CHR ''S'' then 1 else f"
  let ?st = "accessResult g st ?f (addrSValOf p g addr) (addrTagValOf p g addr)"
  have 1: "checkSimulatorCache p g st ?f addr = Some ?st"
    using g Cons.prems by (rule checkSimulatorCache_eq)
  have 3: "length (cacheAddr ?st) = cacheLineTotal g" using Cons.prems by simp
  from Cons.IH [OF 3, of ?f] obtain st' where
    "traceLoop p g recs ?f ?st = Some st'" "length (cacheAddr st') = cacheLineTotal g"
    "hits (stats st') + misses (stats st') = hits (stats ?st) + misses (stats ?st) + of_nat (length recs)"
    by blast
  then show ?case unfolding r using 1 by (simp add: Let_def accessResult_counts)
qed

subsection \<open>Records that are neither loads nor stores\<close>

text \<open>
  C9.  For every geometry for which the program is defined and every state of the
  allocated size: a record whose operation character is neither \<open>L\<close> nor \<open>S\<close> is not
  skipped.  The records before it are replayed to a state; from that state the record's
  address is given to \<open>checkSimulatorCache\<close>, which returns a state in which the record
  is counted as one hit or one miss, with the access kind of the most recent \<open>L\<close> or \<open>S\<close>
  record before it, or as a load (kind 0) when there is none; the records after it are
  replayed from that state with the same kind carried on, and the state they end in is the
  result of the whole trace.
\<close>

theorem C9_other_operation_carries_kind:
  assumes "geometry_ok g" and "length (cacheAddr st) = cacheLineTotal g"
    and "ch \<noteq> CHR ''L''" and "ch \<noteq> CHR ''S''"
  shows "\<exists>st1 st2 st3. traceLoop p g pre 0 st = Some st1
     \<and> checkSimulatorCache p g st1 (lastAccessKind pre) addr = Some st2
     \<and> hits (stats st2) + misses (stats st2) = hits (stats st1) + misses (stats st1) + 1
     \<and> traceLoop p g post (lastAccessKind pre) st2 = Some st3
     \<and> traceLoop p g (pre @ (ch, addr, sz) # post) 0 st = Some st3"
proof -
  from traceLoop_counts [OF assms(1,2), of p pre 0]
  obtain st1 where 1: "traceLoop p g pre 0 st = Some st1"
    and len1: "length (cacheAddr st1) = cacheLineTotal g" by blast
  let ?st2 = "accessResult g st1 (lastAccessKind pre) (addrSValOf p g addr) (addrTagValOf p g addr)"
  have 2: "checkSimulatorCache p g st1 (lastAccessKind pre) addr = Some ?st2"
    using assms(1) len1 by (rule checkSimulatorCache_eq)
  have len2: "length (cacheAddr ?st2) = cacheLineTotal g" using len1 by simp
  from traceLoop_counts [OF assms(1) len2, of p post "lastAccessKind pre"]
  obtain st3 where 3: "traceLoop p g post (lastAccessKind pre) ?st2 = Some st3" by blast
  have "traceLoop p g (pre @ (ch, addr, sz) # post) 0 st = Some st3"
    using traceLoop_other_record [OF assms(3,4), of p g pre addr sz post st] 1 2 3 by simp
  then show ?thesis using 1 2 3 accessResult_counts [of g st1 "lastAccessKind pre"]
    by blast
qed

theorem C9_other_operation_carries_kind_witness:
  "\<exists>st1 st2 st3.
     traceLoop masking_platform (geometry 0 1 4) [(CHR ''S'', 0, 1)] 0
       (initial_state (geometry 0 1 4)) = Some st1
     \<and> checkSimulatorCache masking_platform (geometry 0 1 4) st1 1 16 = Some st2
     \<and> hits (stats st2) + misses (stats st2) = hits (stats st1) + misses (stats st1) + 1
     \<and> traceLoop masking_platform (geometry 0 1 4) [] 1 st2 = Some st3
     \<and> traceLoop masking_platform (geometry 0 1 4) ([(CHR ''S'', 0, 1)] @ (CHR ''M'', 16, 1) # []) 0
         (initial_state (geometry 0 1 4)) = Some st3"
proof -
  have k: "lastAccessKind [(CHR ''S'', 0, 1)] = 1" by (simp add: lastAccessKind_def)
  have len: "length (cacheAddr (initial_state (geometry 0 1 4))) = cacheLineTotal (geometry 0 1 4)"
    by simp
  have ch: "CHR ''M'' \<noteq> CHR ''L''" "CHR ''M'' \<noteq> CHR ''S''" by simp_all
  from C9_other_operation_carries_kind [OF geometry_ok_eval(2) len ch,
      of masking_platform "[(CHR ''S'', 0, 1)]" 16 "[]" 1]
  show ?thesis unfolding k .
qed

section \<open>The uniqueness invariant\<close>

lemma distinct_map_filter_upt:
  "distinct (map f (filter P (map h [0..<n]))) \<longleftrightarrow>
     (\<forall>i<n. \<forall>j<n. i \<noteq> j \<and> P (h i) \<and> P (h j) \<longrightarrow> f (h i) \<noteq> f (h j))"
proof (induction n)
  case 0
  show ?case by simp
next
  case (Suc n)
  show ?case
  proof (cases "P (h n)")
    case False
    then show ?thesis using Suc by (auto simp add: less_Suc_eq)
  next
    case True
    have "distinct (map f (filter P (map h [0..<Suc n]))) \<longleftrightarrow>
        distinct (map f (filter P (map h [0..<n]))) \<and> f (h n) \<notin> f ` {x \<in> h ` {0..<n}. P x}"
      using True by (auto simp add: image_iff)
    also have "\<dots> \<longleftrightarrow> (\<forall>i<n. \<forall>j<n. i \<noteq> j \<and> P (h i) \<and> P (h j) \<longrightarrow> f (h i) \<noteq> f (h j))
        \<and> (\<forall>i<n. P (h i) \<longrightarrow> f (h i) \<noteq> f (h n))"
    proof -
      have "f (h n) \<notin> f ` {x \<in> h ` {0..<n}. P x} \<longleftrightarrow> (\<forall>i<n. P (h i) \<longrightarrow> f (h i) \<noteq> f (h n))"
      proof
        assume a: "f (h n) \<notin> f ` {x \<in> h ` {0..<n}. P x}"
        show "\<forall>i<n. P (h i) \<longrightarrow> f (h i) \<noteq> f (h n)"
        proof (intro allI impI)
          fix i assume "i < n" "P (h i)"
          then have "h i \<in> {x \<in> h ` {0..<n}. P x}" by simp
          then have "f (h i) \<in> f ` {x \<in> h ` {0..<n}. P x}" by (rule imageI)
          with a show "f (h i) \<noteq> f (h n)" by metis
        qed
      next
        assume r: "\<forall>i<n. P (h i) \<longrightarrow> f (h i) \<noteq> f (h n)"
        show "f (h n) \<notin> f ` {x \<in> h ` {0..<n}. P x}"
        proof
          assume "f (h n) \<in> f ` {x \<in> h ` {0..<n}. P x}"
          then obtain x where x: "x \<in> h ` {0..<n}" "P x" "f (h n) = f x" by auto
          then obtain i where "i < n" "x = h i" by auto
          with r x show False by metis
        qed
      qed
      then show ?thesis unfolding Suc by simp
    qed
    also have "\<dots> \<longleftrightarrow> (\<forall>i<Suc n. \<forall>j<Suc n. i \<noteq> j \<and> P (h i) \<and> P (h j) \<longrightarrow> f (h i) \<noteq> f (h j))"
      using True by (auto simp add: less_Suc_eq)
    finally show ?thesis .
  qed
qed

lemma unat_of_nat_set:
  assumes "geometry_ok g" "n < 2 ^ unat (iSetBitCount g)"
  shows "unat (of_nat n :: 64 word) = n"
proof -
  have "(2::nat) ^ unat (iSetBitCount g) \<le> 2 ^ 30"
    using assms(1) by (intro power_increasing) (simp_all add: geometry_ok_def)
  then have "n < 2 ^ 64" using assms(2) by simp
  then show ?thesis by (simp add: unat_of_nat)
qed

lemma uniqueTags_iff:
  assumes "geometry_ok g"
  shows "uniqueTags g c \<longleftrightarrow>
     (\<forall>sv. unat sv < 2 ^ unat (iSetBitCount g) \<longrightarrow>
        (\<forall>i < unat (iCacheLinesPerSet g). \<forall>j < unat (iCacheLinesPerSet g).
           i \<noteq> j \<and> bValidFlag (c ! lineIndex g sv i) \<noteq> 0 \<and> bValidFlag (c ! lineIndex g sv j) \<noteq> 0
           \<longrightarrow> iTag (c ! lineIndex g sv i) \<noteq> iTag (c ! lineIndex g sv j)))"
proof -
  have sets: "set (setNumbers g) = {sv. unat sv < 2 ^ unat (iSetBitCount g)}"
  proof (rule set_eqI)
    fix sv :: "64 word"
    show "sv \<in> set (setNumbers g) \<longleftrightarrow> sv \<in> {sv. unat sv < 2 ^ unat (iSetBitCount g)}"
    proof
      assume "sv \<in> set (setNumbers g)"
      then obtain n where "n < 2 ^ unat (iSetBitCount g)" "sv = of_nat n"
        by (auto simp add: setNumbers_def)
      then show "sv \<in> {sv. unat sv < 2 ^ unat (iSetBitCount g)}"
        using assms by (simp add: unat_of_nat_set)
    next
      assume "sv \<in> {sv. unat sv < 2 ^ unat (iSetBitCount g)}"
      then have "unat sv < 2 ^ unat (iSetBitCount g)" by simp
      moreover have "sv = of_nat (unat sv)" by simp
      ultimately show "sv \<in> set (setNumbers g)"
        unfolding setNumbers_def by (metis (no_types) atLeast0LessThan image_eqI lessThan_iff set_map set_upt)
    qed
  qed
  show ?thesis
    unfolding uniqueTags_def validTags_def lineCounters_def list_all_iff sets
      distinct_map_filter_upt [of iTag "\<lambda>l. bValidFlag l \<noteq> 0"]
    by simp
qed

lemma lineIndex_inj_sets:
  assumes "geometry_ok g" "unat sv < 2 ^ unat (iSetBitCount g)" "unat sv' < 2 ^ unat (iSetBitCount g)"
    "i < unat (iCacheLinesPerSet g)" "j < unat (iCacheLinesPerSet g)"
    "lineIndex g sv i = lineIndex g sv' j"
  shows "sv = sv' \<and> i = j"
proof -
  let ?E = "unat (iCacheLinesPerSet g)"
  have e: "unat sv * ?E + i = unat sv' * ?E + j" using assms by (simp add: lineIndex_eq)
  have "(unat sv * ?E + i) div ?E = unat sv" "(unat sv' * ?E + j) div ?E = unat sv'"
    "(unat sv * ?E + i) mod ?E = i" "(unat sv' * ?E + j) mod ?E = j"
    using assms(4,5) by simp_all
  then have "unat sv = unat sv'" "i = j" using e by metis+
  then show ?thesis by (simp add: word_unat_eq_iff)
qed

lemma uniqueTags_access:
  assumes g: "geometry_ok g" and len: "length (cacheAddr st) = cacheLineTotal g"
    and sv: "unat sv < 2 ^ unat (iSetBitCount g)"
    and inv: "uniqueTags g (cacheAddr st)"
  shows "uniqueTags g (cacheAddr (accessResult g st a sv tag))"
  unfolding uniqueTags_iff [OF g]
proof (intro allI impI, elim conjE)
  let ?c = "cacheAddr st" and ?c' = "cacheAddr (accessResult g st a sv tag)"
  fix sv' i j
  assume sv': "unat sv' < 2 ^ unat (iSetBitCount g)"
    and i: "i < unat (iCacheLinesPerSet g)" and j: "j < unat (iCacheLinesPerSet g)"
    and ij: "i \<noteq> j"
    and vi: "bValidFlag (?c' ! lineIndex g sv' i) \<noteq> 0"
    and vj: "bValidFlag (?c' ! lineIndex g sv' j) \<noteq> 0"
  have ki: "lineIndex g sv' i < length ?c" and kj: "lineIndex g sv' j < length ?c"
    using g sv' i j len by (simp_all add: lineIndex_less)
  have ne: "lineIndex g sv' i \<noteq> lineIndex g sv' j"
    using lineIndex_inj_sets [OF g sv' sv' i j] ij by blast
  have old: "bValidFlag (?c ! lineIndex g sv' i) \<noteq> 0 \<Longrightarrow> bValidFlag (?c ! lineIndex g sv' j) \<noteq> 0
      \<Longrightarrow> iTag (?c ! lineIndex g sv' i) \<noteq> iTag (?c ! lineIndex g sv' j)"
    using inv sv' i j ij unfolding uniqueTags_iff [OF g] by blast
  obtain K where K: "K = {} \<or> (\<exists>j0 < unat (iCacheLinesPerSet g).
        K = {lineIndex g sv j0} \<and> hitSlot g ?c sv tag = None)"
    and eff: "\<And>k. k < length ?c \<Longrightarrow>
          (if k \<in> K then iTag (?c' ! k) = tag \<and> bValidFlag (?c' ! k) \<noteq> 0
           else iTag (?c' ! k) = iTag (?c ! k) \<and> bValidFlag (?c' ! k) = bValidFlag (?c ! k))"
    using access_tag_valid [of g sv st tag a] by blast
  have fresh: "k' < unat (iCacheLinesPerSet g) \<Longrightarrow> bValidFlag (?c ! lineIndex g sv' k') \<noteq> 0 \<Longrightarrow>
      lineIndex g sv' k'' \<in> K \<Longrightarrow> k'' < unat (iCacheLinesPerSet g) \<Longrightarrow> iTag (?c ! lineIndex g sv' k') \<noteq> tag" for k' k''
  proof -
    assume k': "k' < unat (iCacheLinesPerSet g)" and v: "bValidFlag (?c ! lineIndex g sv' k') \<noteq> 0"
      and inK: "lineIndex g sv' k'' \<in> K" and k'': "k'' < unat (iCacheLinesPerSet g)"
    from K inK obtain j0 where j0: "j0 < unat (iCacheLinesPerSet g)" "K = {lineIndex g sv j0}"
      "hitSlot g ?c sv tag = None" by auto
    then have "lineIndex g sv' k'' = lineIndex g sv j0" using inK by simp
    then have "sv' = sv" using lineIndex_inj_sets [OF g sv' sv k'' j0(1)] by simp
    then show ?thesis using j0(3) k' v by (auto simp add: hitSlot_None)
  qed
  show "iTag (?c' ! lineIndex g sv' i) \<noteq> iTag (?c' ! lineIndex g sv' j)"
  proof (cases "lineIndex g sv' i \<in> K")
    case True
    then have nj: "lineIndex g sv' j \<notin> K" using K ne by auto
    have "iTag (?c' ! lineIndex g sv' i) = tag" using eff [OF ki] True by simp
    moreover have "iTag (?c' ! lineIndex g sv' j) = iTag (?c ! lineIndex g sv' j)"
      "bValidFlag (?c ! lineIndex g sv' j) \<noteq> 0" using eff [OF kj] nj vj by simp_all
    ultimately show ?thesis using fresh [OF j _ True i] by simp
  next
    case False
    note ni = this
    have ei: "iTag (?c' ! lineIndex g sv' i) = iTag (?c ! lineIndex g sv' i)"
      "bValidFlag (?c ! lineIndex g sv' i) \<noteq> 0" using eff [OF ki] ni vi by simp_all
    show ?thesis
    proof (cases "lineIndex g sv' j \<in> K")
      case True
      have "iTag (?c' ! lineIndex g sv' j) = tag" using eff [OF kj] True by simp
      then show ?thesis using fresh [OF i ei(2) True j] ei by simp
    next
      case False
      have "iTag (?c' ! lineIndex g sv' j) = iTag (?c ! lineIndex g sv' j)"
        "bValidFlag (?c ! lineIndex g sv' j) \<noteq> 0" using eff [OF kj] False vj by simp_all
      then show ?thesis using ei old by simp
    qed
  qed
qed

lemma uniqueTags_initial:
  assumes "geometry_ok g"
  shows "uniqueTags g (cacheAddr (initial_state g))"
  unfolding uniqueTags_iff [OF assms]
  using assms by (simp add: initial_state_def lineIndex_less zero_line_def)

text \<open>
  C4.  For every geometry for which the program is defined and every trace, replaying
  the trace from the zero-initialised cache ends in a state in which no set has two
  valid lines with equal tags.
\<close>

theorem C4_unique_tags:
  assumes "geometry_ok g"
  shows "\<exists>st. traceLoop p g recs 0 (initial_state g) = Some st \<and> uniqueTags g (cacheAddr st)"
proof -
  have "\<exists>st. traceLoop p g recs 0 (initial_state g) = Some st \<and> uniqueTags g (cacheAddr st)
      \<and> length (cacheAddr st) = cacheLineTotal g"
    using assms
    by (intro traceLoop_invariant [where I = "\<lambda>st. uniqueTags g (cacheAddr st)"])
      (simp_all add: uniqueTags_access uniqueTags_initial)
  then show ?thesis by blast
qed

theorem C4_unique_tags_witness:
  "geometry_ok (geometry 1 2 0)
   \<and> (\<exists>st. traceLoop masking_platform (geometry 1 2 0)
              [(CHR ''L'', 0, 1), (CHR ''S'', 2, 1), (CHR ''L'', 4, 1), (CHR ''L'', 1, 1)] 0
              (initial_state (geometry 1 2 0)) = Some st
           \<and> uniqueTags (geometry 1 2 0) (cacheAddr st))"
  using C4_unique_tags [of "geometry 1 2 0" masking_platform
      "[(CHR ''L'', 0, 1), (CHR ''S'', 2, 1), (CHR ''L'', 4, 1), (CHR ''L'', 1, 1)]"]
    geometry_ok_eval(3)
  by simp

section \<open>Dirty accounting\<close>

text \<open>
  C6.  One access, from any state of the allocated size.  If it hits slot \<open>j\<close> (the
  first valid slot of the set with the tag; the hit counter grows by one): a store leaves
  the line dirty, no line that was dirty becomes clean, and no eviction count changes.  If
  it evicts slot \<open>j\<close> (no hit, no invalid slot, \<open>j\<close> the first slot of rank 1; the
  eviction counter grows by one): the eviction count of that line grows by one when the
  line was dirty and stays when it was clean, its dirty flag becomes 0 for a load (kind 0)
  and 1 otherwise, and the eviction counts of all other lines stay.
\<close>

theorem C6_dirty_accounting:
  assumes "geometry_ok g" and "length (cacheAddr st) = cacheLineTotal g"
  shows "\<exists>st'. checkSimulatorCache p g st a addr = Some st'
     \<and> (\<forall>j. hitSlot g (cacheAddr st) (addrSValOf p g addr) (addrTagValOf p g addr) = Some j \<longrightarrow>
           hits (stats st') = hits (stats st) + 1
         \<and> (a = 1 \<longrightarrow> bDirtyFlag (cacheAddr st' ! lineIndex g (addrSValOf p g addr) j) = 1)
         \<and> (\<forall>k < length (cacheAddr st).
               (bDirtyFlag (cacheAddr st ! k) = 1 \<longrightarrow> bDirtyFlag (cacheAddr st' ! k) = 1)
             \<and> dirtyEvictionCount (cacheAddr st' ! k) = dirtyEvictionCount (cacheAddr st ! k)))
     \<and> (\<forall>j. hitSlot g (cacheAddr st) (addrSValOf p g addr) (addrTagValOf p g addr) = None
           \<and> emptySlot g (cacheAddr st) (addrSValOf p g addr) = None
           \<and> victimSlot g (cacheAddr st) (addrSValOf p g addr) = Some j \<longrightarrow>
           evictions (stats st') = evictions (stats st) + 1
         \<and> dirtyEvictionCount (cacheAddr st' ! lineIndex g (addrSValOf p g addr) j) =
             (if bDirtyFlag (cacheAddr st ! lineIndex g (addrSValOf p g addr) j) = 1
              then dirtyEvictionCount (cacheAddr st ! lineIndex g (addrSValOf p g addr) j) + 1
              else dirtyEvictionCount (cacheAddr st ! lineIndex g (addrSValOf p g addr) j))
         \<and> bDirtyFlag (cacheAddr st' ! lineIndex g (addrSValOf p g addr) j) = (if a = 0 then 0 else 1)
         \<and> (\<forall>k < length (cacheAddr st). k \<noteq> lineIndex g (addrSValOf p g addr) j \<longrightarrow>
               dirtyEvictionCount (cacheAddr st' ! k) = dirtyEvictionCount (cacheAddr st ! k)))"
proof -
  let ?sv = "addrSValOf p g addr" and ?tag = "addrTagValOf p g addr"
  let ?c = "cacheAddr st"
  have sv: "unat ?sv < 2 ^ unat (iSetBitCount g)"
    using assms(1) by (intro addrSValOf_less) (simp add: geometry_ok_def)
  have run: "checkSimulatorCache p g st a addr = Some (accessResult g st a ?sv ?tag)"
    using assms by (rule checkSimulatorCache_eq)
  have hit: "hits (stats (accessResult g st a ?sv ?tag)) = hits (stats st) + 1
         \<and> (a = 1 \<longrightarrow> bDirtyFlag (cacheAddr (accessResult g st a ?sv ?tag) ! lineIndex g ?sv j) = 1)
         \<and> (\<forall>k < length ?c.
               (bDirtyFlag (?c ! k) = 1 \<longrightarrow> bDirtyFlag (cacheAddr (accessResult g st a ?sv ?tag) ! k) = 1)
             \<and> dirtyEvictionCount (cacheAddr (accessResult g st a ?sv ?tag) ! k) = dirtyEvictionCount (?c ! k))"
    if h: "hitSlot g ?c ?sv ?tag = Some j" for j
  proof -
    have "j < unat (iCacheLinesPerSet g)" using h by (simp add: hitSlot_Some)
    then have "lineIndex g ?sv j < length ?c" using assms sv by (simp add: lineIndex_less)
    then show ?thesis by (simp add: accessResult_hit [OF h] hitLines_fields)
  qed
  have evict: "evictions (stats (accessResult g st a ?sv ?tag)) = evictions (stats st) + 1
         \<and> dirtyEvictionCount (cacheAddr (accessResult g st a ?sv ?tag) ! lineIndex g ?sv j) =
             (if bDirtyFlag (?c ! lineIndex g ?sv j) = 1
              then dirtyEvictionCount (?c ! lineIndex g ?sv j) + 1
              else dirtyEvictionCount (?c ! lineIndex g ?sv j))
         \<and> bDirtyFlag (cacheAddr (accessResult g st a ?sv ?tag) ! lineIndex g ?sv j) = (if a = 0 then 0 else 1)
         \<and> (\<forall>k < length ?c. k \<noteq> lineIndex g ?sv j \<longrightarrow>
               dirtyEvictionCount (cacheAddr (accessResult g st a ?sv ?tag) ! k) = dirtyEvictionCount (?c ! k))"
    if h: "hitSlot g ?c ?sv ?tag = None" "emptySlot g ?c ?sv = None" "victimSlot g ?c ?sv = Some j" for j
  proof -
    have "j < unat (iCacheLinesPerSet g)" using h by (simp add: victimSlot_Some)
    then have "lineIndex g ?sv j < length ?c" using assms sv by (simp add: lineIndex_less)
    then show ?thesis by (simp add: accessResult_evict [OF h] evictLines_fields)
  qed
  show ?thesis unfolding run using hit evict by blast
qed

theorem C6_dirty_accounting_witness:
  "(\<exists>st'. checkSimulatorCache masking_platform (geometry 0 1 4)
            \<lparr>cacheAddr = [clean_line], stats = zero_stats\<rparr> 1 0 = Some st'
          \<and> bDirtyFlag (cacheAddr st' ! 0) = 1)
   \<and> (\<exists>st'. checkSimulatorCache masking_platform (geometry 0 1 4)
            \<lparr>cacheAddr = [dirty_line], stats = zero_stats\<rparr> 0 16 = Some st'
          \<and> dirtyEvictionCount (cacheAddr st' ! 0) = 1 \<and> bDirtyFlag (cacheAddr st' ! 0) = 0)"
proof
  have len: "length (cacheAddr \<lparr>cacheAddr = [clean_line], stats = zero_stats\<rparr>) =
      cacheLineTotal (geometry 0 1 4)"
    by (simp add: slots_0_1_4)
  from C6_dirty_accounting [OF geometry_ok_eval(2) len, of masking_platform 1 0]
  obtain st' where run: "checkSimulatorCache masking_platform (geometry 0 1 4)
            \<lparr>cacheAddr = [clean_line], stats = zero_stats\<rparr> 1 0 = Some st'"
    and hit: "\<forall>j. hitSlot (geometry 0 1 4) [clean_line] 0 0 = Some j \<longrightarrow>
           ((1 :: 32 word) = 1 \<longrightarrow> bDirtyFlag (cacheAddr st' ! lineIndex (geometry 0 1 4) 0 j) = 1)
         \<and> (\<forall>k < length [clean_line].
               (bDirtyFlag ([clean_line] ! k) = 1 \<longrightarrow> bDirtyFlag (cacheAddr st' ! k) = 1)
             \<and> dirtyEvictionCount (cacheAddr st' ! k) = dirtyEvictionCount ([clean_line] ! k))"
    unfolding decompose_0_1_4 by auto
  from hit [rule_format, OF slots_0_1_4(1)] have "bDirtyFlag (cacheAddr st' ! 0) = 1"
    by (simp add: slots_0_1_4)
  with run show "\<exists>st'. checkSimulatorCache masking_platform (geometry 0 1 4)
            \<lparr>cacheAddr = [clean_line], stats = zero_stats\<rparr> 1 0 = Some st'
          \<and> bDirtyFlag (cacheAddr st' ! 0) = 1" by blast
next
  have len: "length (cacheAddr \<lparr>cacheAddr = [dirty_line], stats = zero_stats\<rparr>) =
      cacheLineTotal (geometry 0 1 4)"
    by (simp add: slots_0_1_4)
  from C6_dirty_accounting [OF geometry_ok_eval(2) len, of masking_platform 0 16]
  obtain st' where run: "checkSimulatorCache masking_platform (geometry 0 1 4)
            \<lparr>cacheAddr = [dirty_line], stats = zero_stats\<rparr> 0 16 = Some st'"
    and ev: "\<forall>j. hitSlot (geometry 0 1 4) [dirty_line] 0 1 = None
           \<and> emptySlot (geometry 0 1 4) [dirty_line] 0 = None
           \<and> victimSlot (geometry 0 1 4) [dirty_line] 0 = Some j \<longrightarrow>
           dirtyEvictionCount (cacheAddr st' ! lineIndex (geometry 0 1 4) 0 j) =
             (if bDirtyFlag ([dirty_line] ! lineIndex (geometry 0 1 4) 0 j) = 1
              then dirtyEvictionCount ([dirty_line] ! lineIndex (geometry 0 1 4) 0 j) + 1
              else dirtyEvictionCount ([dirty_line] ! lineIndex (geometry 0 1 4) 0 j))
         \<and> bDirtyFlag (cacheAddr st' ! lineIndex (geometry 0 1 4) 0 j) = (if (0 :: 32 word) = 0 then 0 else 1)
         \<and> (\<forall>k < length [dirty_line]. k \<noteq> lineIndex (geometry 0 1 4) 0 j \<longrightarrow>
               dirtyEvictionCount (cacheAddr st' ! k) = dirtyEvictionCount ([dirty_line] ! k))"
    unfolding decompose_0_1_4 by auto
  from ev [rule_format, of 0]
  have "dirtyEvictionCount (cacheAddr st' ! 0) = 1 \<and> bDirtyFlag (cacheAddr st' ! 0) = 0"
    by (simp add: slots_0_1_4 dirty_line_fields)
  with run show "\<exists>st'. checkSimulatorCache masking_platform (geometry 0 1 4)
            \<lparr>cacheAddr = [dirty_line], stats = zero_stats\<rparr> 0 16 = Some st'
          \<and> dirtyEvictionCount (cacheAddr st' ! 0) = 1 \<and> bDirtyFlag (cacheAddr st' ! 0) = 0"
    by blast
qed

section \<open>The summary\<close>

subsection \<open>Dirty lines are valid\<close>

lemma dirtyOnlyValid_iff:
  "dirtyOnlyValid c \<longleftrightarrow> (\<forall>k < length c. bDirtyFlag (c ! k) = 1 \<longrightarrow> bValidFlag (c ! k) \<noteq> 0)"
  by (auto simp add: dirtyOnlyValid_def list_all_length)

lemma dirtyOnlyValid_access:
  assumes g: "geometry_ok g" and len: "length (cacheAddr st) = cacheLineTotal g"
    and sv: "unat sv < 2 ^ unat (iSetBitCount g)"
    and inv: "dirtyOnlyValid (cacheAddr st)"
  shows "dirtyOnlyValid (cacheAddr (accessResult g st a sv tag))"
proof -
  let ?c = "cacheAddr st"
  have idx: "j < unat (iCacheLinesPerSet g) \<Longrightarrow> lineIndex g sv j < length ?c" for j
    using g len sv by (simp add: lineIndex_less)
  note old = inv [unfolded dirtyOnlyValid_iff, rule_format]
  show ?thesis
  proof (cases "hitSlot g ?c sv tag")
    case (Some j)
    then have "bValidFlag (?c ! lineIndex g sv j) \<noteq> 0" by (simp add: hitSlot_Some)
    then show ?thesis using old
      by (auto simp add: dirtyOnlyValid_iff accessResult_hit [OF Some] hitLines_fields)
  next
    case None
    note hit = this
    show ?thesis
    proof (cases "emptySlot g ?c sv")
      case (Some j)
      then show ?thesis using old
        by (auto simp add: dirtyOnlyValid_iff accessResult_fill [OF hit Some] fillLines_fields)
    next
      case None
      note empty = this
      show ?thesis
      proof (cases "victimSlot g ?c sv")
        case None
        then show ?thesis using inv by (simp add: accessResult_stuck [OF hit empty])
      next
        case (Some j)
        then have "j < unat (iCacheLinesPerSet g)" by (simp add: victimSlot_Some)
        then have "bValidFlag (?c ! lineIndex g sv j) \<noteq> 0" using empty by (simp add: emptySlot_None)
        then show ?thesis using old
          by (auto simp add: dirtyOnlyValid_iff accessResult_evict [OF hit empty Some] evictLines_fields)
      qed
    qed
  qed
qed

lemma dirtyOnlyValid_initial: "dirtyOnlyValid (cacheAddr (initial_state g))"
  by (simp add: dirtyOnlyValid_def initial_state_def zero_line_def list_all_iff)

lemma validDirtyCount_eq:
  assumes "dirtyOnlyValid c"
  shows "length (filter (\<lambda>l. bDirtyFlag l = 1) c) = validDirtyCount c"
proof -
  have "filter (\<lambda>l. bDirtyFlag l = 1) c = filter (\<lambda>l. bValidFlag l \<noteq> 0 \<and> bDirtyFlag l = 1) c"
    using assms by (intro filter_cong) (auto simp add: dirtyOnlyValid_def list_all_iff)
  then show ?thesis by (simp add: validDirtyCount_def)
qed

subsection \<open>The summary loops\<close>

lemma summaryIndex_eq:
  assumes "geometry_ok g" "n < 2 ^ unat (iSetBitCount g)" "j < unat (iCacheLinesPerSet g)"
  shows "unat (of_nat n * iCacheLinesPerSet g + of_nat j :: 32 word) = n * unat (iCacheLinesPerSet g) + j"
proof -
  let ?E = "unat (iCacheLinesPerSet g)"
  have "n * ?E + ?E \<le> 2 ^ unat (iSetBitCount g) * ?E"
    using assms(2) by (metis Suc_leI mult_Suc mult_le_mono1 add.commute)
  then have b: "n * ?E + j < 2 ^ 32" using assms unfolding geometry_ok_def by linarith
  have "n * ?E \<le> n * ?E + j" by simp
  moreover have "n \<le> n * ?E" using assms(1) by (simp add: geometry_ok_def)
  ultimately have n: "n < 2 ^ 32" "j < 2 ^ 32" using b by linarith+
  have 1: "unat (of_nat n :: 32 word) = n" "unat (of_nat j :: 32 word) = j"
    using n by (simp_all add: unat_of_nat)
  have 2: "unat (of_nat n * iCacheLinesPerSet g :: 32 word) = n * ?E"
    using b 1 by (simp add: unat_word_ariths)
  show ?thesis using b 1 2 by (simp add: unat_word_ariths)
qed

lemma summaryInner_eq:
  assumes "geometry_ok g" "n < 2 ^ unat (iSetBitCount g)" "length c = cacheLineTotal g"
    "set js \<subseteq> {0 ..< unat (iCacheLinesPerSet g)}"
  shows "summaryInner g c (of_nat n) js acc =
     Some (fst acc + of_nat (length (filter (\<lambda>l. bDirtyFlag l = 1)
                                (map (\<lambda>j. c ! (n * unat (iCacheLinesPerSet g) + j)) js))),
           snd acc + sum_list (map dirtyEvictionCount
                                (map (\<lambda>j. c ! (n * unat (iCacheLinesPerSet g) + j)) js)))"
  using assms(4)
proof (induction js arbitrary: acc)
  case Nil
  show ?case by simp
next
  case (Cons j js)
  have j: "j < unat (iCacheLinesPerSet g)" using Cons.prems by simp
  have k: "unat (of_nat n * iCacheLinesPerSet g + of_nat j :: 32 word) = n * unat (iCacheLinesPerSet g) + j"
    using assms(1,2) j by (rule summaryIndex_eq)
  have "lineIndex g (of_nat n) j < cacheLineTotal g"
    using assms(1,2) j by (intro lineIndex_less) (simp_all add: unat_of_nat_set)
  then have b: "n * unat (iCacheLinesPerSet g) + j < length c"
    using assms j by (simp add: lineIndex_eq unat_of_nat_set)
  let ?acc = "((if bDirtyFlag (c ! (n * unat (iCacheLinesPerSet g) + j)) = 1 then fst acc + 1 else fst acc),
          snd acc + dirtyEvictionCount (c ! (n * unat (iCacheLinesPerSet g) + j)))"
  have step: "summaryInner g c (of_nat n) (j # js) acc = summaryInner g c (of_nat n) js ?acc"
    using b by (simp add: k Let_def)
  have js: "set js \<subseteq> {0 ..< unat (iCacheLinesPerSet g)}" using Cons.prems by simp
  show ?case unfolding step Cons.IH [OF js] by (simp add: add.assoc)
qed

lemma summaryOuter_eq:
  assumes "geometry_ok g" "length c = cacheLineTotal g" "set ns \<subseteq> {0 ..< 2 ^ unat (iSetBitCount g)}"
  shows "summaryOuter g c ns acc =
     Some (fst acc + of_nat (length (filter (\<lambda>l. bDirtyFlag l = 1)
              (concat (map (\<lambda>n. map (\<lambda>j. c ! (n * unat (iCacheLinesPerSet g) + j))
                                   [0 ..< unat (iCacheLinesPerSet g)]) ns)))),
           snd acc + sum_list (map dirtyEvictionCount
              (concat (map (\<lambda>n. map (\<lambda>j. c ! (n * unat (iCacheLinesPerSet g) + j))
                                   [0 ..< unat (iCacheLinesPerSet g)]) ns))))"
  using assms(3)
proof (induction ns arbitrary: acc)
  case Nil
  show ?case by simp
next
  case (Cons n ns)
  have n: "n < 2 ^ unat (iSetBitCount g)" using Cons.prems by simp
  have inner: "summaryInner g c (of_nat n) (lineCounters g) acc =
     Some (fst acc + of_nat (length (filter (\<lambda>l. bDirtyFlag l = 1)
                                (map (\<lambda>j. c ! (n * unat (iCacheLinesPerSet g) + j)) (lineCounters g)))),
           snd acc + sum_list (map dirtyEvictionCount
                                (map (\<lambda>j. c ! (n * unat (iCacheLinesPerSet g) + j)) (lineCounters g))))"
    using assms(1) n assms(2) by (rule summaryInner_eq) (simp add: lineCounters_def)
  have ns: "set ns \<subseteq> {0 ..< 2 ^ unat (iSetBitCount g)}" using Cons.prems by simp
  show ?case unfolding summaryOuter.simps inner option.case Cons.IH [OF ns]
    by (simp add: lineCounters_def add.assoc)
qed

lemma concat_segments:
  "N * E \<le> length c \<Longrightarrow>
   concat (map (\<lambda>n. map (\<lambda>j. c ! (n * E + j)) [0 ..< E]) [0 ..< N]) = take (N * E) c"
proof (induction N)
  case 0
  show ?case by simp
next
  case (Suc N)
  have "E \<le> length c - N * E" using Suc.prems by simp
  then have seg: "map (\<lambda>j. c ! (N * E + j)) [0 ..< E] = take E (drop (N * E) c)"
    by (intro nth_equalityI) simp_all
  have "Suc N * E = N * E + E" by simp
  then have "take (Suc N * E) c = take (N * E) c @ take E (drop (N * E) c)"
    by (simp only: take_add)
  then show ?case using Suc by (simp add: seg)
qed

lemma summarize_eq:
  assumes "geometry_ok g" "length (cacheAddr st) = cacheLineTotal g"
  shows "summarize g st =
     Some ((stats st)
        \<lparr>dirty_bytes := ucast (of_nat (length (filter (\<lambda>l. bDirtyFlag l = 1) (cacheAddr st)))
                                 * iBlocksPerLine g),
         dirty_evictions := ucast (sum_list (map dirtyEvictionCount (cacheAddr st))
                                     * iBlocksPerLine g)\<rparr>)"
proof -
  have n: "unat (iSetCount g) = 2 ^ unat (iSetBitCount g)"
    using assms(1) by (simp add: geometry_ok_def unat_2p32)
  have "concat (map (\<lambda>n. map (\<lambda>j. cacheAddr st ! (n * unat (iCacheLinesPerSet g) + j))
          [0 ..< unat (iCacheLinesPerSet g)]) [0 ..< 2 ^ unat (iSetBitCount g)]) = cacheAddr st"
    using assms by (simp add: concat_segments cacheLineTotal_eq)
  then show ?thesis
    using summaryOuter_eq [OF assms, of "[0 ..< 2 ^ unat (iSetBitCount g)]" "(0, 0)"]
    by (simp add: summarize_def n)
qed

subsection \<open>The summary against the lines\<close>

lemma unat_sum_list_32:
  "unat (sum_list (map f xs) :: 32 word) = sum_list (map (\<lambda>x. unat (f x)) xs) mod 2 ^ 32"
proof (induction xs)
  case Nil
  show ?case by simp
next
  case (Cons x xs)
  have "unat (f x + sum_list (map f xs)) = (unat (f x) + unat (sum_list (map f xs))) mod 2 ^ 32"
    by (simp add: unat_word_ariths)
  also have "\<dots> = (unat (f x) + sum_list (map (\<lambda>x. unat (f x)) xs)) mod 2 ^ 32"
    unfolding Cons.IH by (simp add: mod_add_right_eq)
  finally show ?case by simp
qed

lemma unat_times_block:
  assumes "b \<le> 30"
  shows "unat (x * 2 ^ b :: 32 word) = (unat x * 2 ^ b) mod 2 ^ 32"
  using assms by (simp add: unat_word_ariths unat_2p32)

text \<open>
  C7, as the code has it.  For every geometry for which the program is defined and
  every trace: the replay leaves \<open>dirty_bytes\<close> and \<open>dirty_evictions\<close> at 0, and the one
  pass over the lines that follows sets them to the number of valid and dirty lines times
  \<open>2^b\<close> and to the sum of the dirty-eviction counts times \<open>2^b\<close>, both reduced modulo
  \<open>2^32\<close>, because the counters and the products are \<open>unsigned int\<close>.
\<close>

theorem C7_summary_modulo:
  assumes "geometry_ok g"
  shows "\<exists>st. traceLoop p g recs 0 (initial_state g) = Some st
     \<and> dirty_bytes (stats st) = 0 \<and> dirty_evictions (stats st) = 0
     \<and> (\<exists>s. summarize g st = Some s
          \<and> unat (dirty_bytes s) =
              (validDirtyCount (cacheAddr st) * 2 ^ unat (iBlockBitCount g)) mod 2 ^ 32
          \<and> unat (dirty_evictions s) =
              (evictionCountSum (cacheAddr st) * 2 ^ unat (iBlockBitCount g)) mod 2 ^ 32)"
proof -
  let ?I = "\<lambda>st. dirtyOnlyValid (cacheAddr st) \<and> dirty_bytes (stats st) = 0
      \<and> dirty_evictions (stats st) = 0"
  have "\<exists>st. traceLoop p g recs 0 (initial_state g) = Some st \<and> ?I st
      \<and> length (cacheAddr st) = cacheLineTotal g"
    using assms
    by (intro traceLoop_invariant [where I = ?I])
      (simp_all add: dirtyOnlyValid_access summary_fields_access dirtyOnlyValid_initial,
       simp_all add: initial_state_def zero_stats_def)
  then obtain st where run: "traceLoop p g recs 0 (initial_state g) = Some st"
    and inv: "dirtyOnlyValid (cacheAddr st)" "dirty_bytes (stats st) = 0"
      "dirty_evictions (stats st) = 0"
    and len: "length (cacheAddr st) = cacheLineTotal g" by blast
  have b: "unat (iBlockBitCount g) \<le> 30" "iBlocksPerLine g = 2 ^ unat (iBlockBitCount g)"
    using assms by (simp_all add: geometry_ok_def)
  have count: "unat (of_nat (validDirtyCount (cacheAddr st)) * 2 ^ unat (iBlockBitCount g) :: 32 word)
      = (validDirtyCount (cacheAddr st) * 2 ^ unat (iBlockBitCount g)) mod 2 ^ 32"
    unfolding unat_times_block [OF b(1)] by (simp add: unat_of_nat mod_mult_left_eq)
  have sum: "unat (sum_list (map dirtyEvictionCount (cacheAddr st)) * 2 ^ unat (iBlockBitCount g) :: 32 word)
      = (evictionCountSum (cacheAddr st) * 2 ^ unat (iBlockBitCount g)) mod 2 ^ 32"
    unfolding unat_times_block [OF b(1)] unat_sum_list_32 evictionCountSum_def
    by (simp add: mod_mult_left_eq)
  show ?thesis
    using run inv count sum
    by (simp add: summarize_eq [OF assms len] validDirtyCount_eq b(2) unat_ucast_32_64)
qed

theorem C7_summary_modulo_witness:
  "geometry_ok (geometry 0 1 4)
   \<and> (\<exists>st. traceLoop masking_platform (geometry 0 1 4) [(CHR ''S'', 0, 1), (CHR ''L'', 16, 1)] 0
              (initial_state (geometry 0 1 4)) = Some st
         \<and> dirty_bytes (stats st) = 0 \<and> dirty_evictions (stats st) = 0
         \<and> (\<exists>s. summarize (geometry 0 1 4) st = Some s
              \<and> unat (dirty_bytes s) = (validDirtyCount (cacheAddr st) * 2 ^ 4) mod 2 ^ 32
              \<and> unat (dirty_evictions s) = (evictionCountSum (cacheAddr st) * 2 ^ 4) mod 2 ^ 32))"
  using C7_summary_modulo [of "geometry 0 1 4" masking_platform
      "[(CHR ''S'', 0, 1), (CHR ''L'', 16, 1)]"] geometry_ok_eval(2)
  by (simp add: geometry_simps)

text \<open>
  C7 as stated fails on the code.  With four sets of one line and blocks of \<open>2^30\<close>
  bytes (\<open>-s 2 -E 1 -b 30\<close>), four stores to the four sets leave four valid dirty lines,
  that is \<open>2^32\<close> dirty bytes; the summary reports \<open>dirty_bytes = 0\<close>.
\<close>

theorem C7_dirty_bytes_wrap:
  "traceLoop masking_platform (geometry 2 1 30)
     [(CHR ''S'', 0, 1), (CHR ''S'', 0x40000000, 1), (CHR ''S'', 0x80000000, 1),
      (CHR ''S'', 0xC0000000, 1)] 0 (initial_state (geometry 2 1 30)) =
   Some \<lparr>cacheAddr = four_dirty_lines,
         stats = \<lparr>hits = 0, misses = 4, evictions = 0, dirty_bytes = 0, dirty_evictions = 0\<rparr>\<rparr>
   \<and> summarize (geometry 2 1 30)
       \<lparr>cacheAddr = four_dirty_lines,
        stats = \<lparr>hits = 0, misses = 4, evictions = 0, dirty_bytes = 0, dirty_evictions = 0\<rparr>\<rparr> =
     Some \<lparr>hits = 0, misses = 4, evictions = 0, dirty_bytes = 0, dirty_evictions = 0\<rparr>
   \<and> validDirtyCount four_dirty_lines * 2 ^ unat (iBlockBitCount (geometry 2 1 30)) = 4294967296"
  by (simp add: geometry_2_1_30 run_simps upt_small replicate_4 four_dirty_lines_def
      mask_eq_exp_minus_1 summarize_def validDirtyCount_def)

section \<open>The configuration check\<close>

subsection \<open>The option loop\<close>











subsection \<open>The two exits of the check\<close>




section \<open>Filling a set and the least recently used line\<close>

lemma filledSet_initial:
  assumes "geometry_ok g" "unat sv < 2 ^ unat (iSetBitCount g)"
  shows "filledSet g (cacheAddr (initial_state g)) sv []"
  using assms by (simp add: filledSet_def initial_state_def lineIndex_less zero_line_def)

lemma filledSet_fill:
  assumes g: "geometry_ok g" and sv: "unat sv < 2 ^ unat (iSetBitCount g)"
    and len: "length c = cacheLineTotal g"
    and f: "filledSet g c sv ts" and m: "length ts < unat (iCacheLinesPerSet g)"
    and t: "t \<notin> set ts"
  shows "hitSlot g c sv t = None" and "emptySlot g c sv = Some (length ts)"
    and "filledSet g (fillLines g a sv t (length ts) c) sv (ts @ [t])"
proof -
  let ?E = "unat (iCacheLinesPerSet g)"
  have acc: "accessible g c sv" using g sv len by (rule accessibleI)
  note slot = f [unfolded filledSet_def, THEN conjunct2, rule_format]
  show "hitSlot g c sv t = None"
    unfolding hitSlot_None
  proof (intro allI impI)
    fix j assume j: "j < ?E"
    show "\<not> (iTag (c ! lineIndex g sv j) = t \<and> bValidFlag (c ! lineIndex g sv j) \<noteq> 0)"
    proof (cases "j < length ts")
      case True
      then have "iTag (c ! lineIndex g sv j) = ts ! j" using slot [OF j] by simp
      moreover have "ts ! j \<in> set ts" using True by simp
      ultimately show ?thesis using t by auto
    next
      case False
      then show ?thesis using slot [OF j] by simp
    qed
  qed
  show "emptySlot g c sv = Some (length ts)"
    unfolding emptySlot_Some
  proof (intro conjI allI impI)
    show "length ts < ?E" by (rule m)
    show "bValidFlag (c ! lineIndex g sv (length ts)) = 0" using slot [OF m] by simp
    fix i assume "i < length ts"
    then show "bValidFlag (c ! lineIndex g sv i) \<noteq> 0" using slot [of i] m by simp
  qed
  have R: "unat (iRecentAccessRankValue g) = ?E" using g by (simp add: geometry_ok_def)
  show "filledSet g (fillLines g a sv t (length ts) c) sv (ts @ [t])"
    unfolding filledSet_def
  proof (intro conjI allI impI)
    show "length (ts @ [t]) \<le> ?E" using m by simp
    fix j assume j: "j < ?E"
    have k: "lineIndex g sv j < length c" using acc j by (simp add: accessible_less)
    have eq: "lineIndex g sv j = lineIndex g sv (length ts) \<longleftrightarrow> j = length ts"
      using acc j m by (simp add: accessible_inj)
    consider "j < length ts" | "j = length ts" | "length ts < j" by linarith
    then show "if j < length (ts @ [t])
          then iTag (fillLines g a sv t (length ts) c ! lineIndex g sv j) = (ts @ [t]) ! j
             \<and> bValidFlag (fillLines g a sv t (length ts) c ! lineIndex g sv j) = 1
             \<and> unat (iRank (fillLines g a sv t (length ts) c ! lineIndex g sv j)) =
                 ?E - length (ts @ [t]) + 1 + j
          else bValidFlag (fillLines g a sv t (length ts) c ! lineIndex g sv j) = 0"
    proof cases
      case 1
      have old: "iTag (c ! lineIndex g sv j) = ts ! j" "bValidFlag (c ! lineIndex g sv j) = 1"
        "unat (iRank (c ! lineIndex g sv j)) = ?E - length ts + 1 + j"
        using slot [OF j] 1 by simp_all
      then have "iRank (c ! lineIndex g sv j) \<noteq> 0" by (auto simp add: unat_eq_0)
      then have "unat (iRank (c ! lineIndex g sv j) - 1) = unat (iRank (c ! lineIndex g sv j)) - 1"
        by (simp add: unat_minus_one)
      then show ?thesis using 1 old m k eq
        by (simp add: fillLines_fields fillLines_rank [OF acc j m] nth_append)
    next
      case 2
      then show ?thesis using m k R
        by (simp add: fillLines_fields fillLines_rank [OF acc m m])
    next
      case 3
      then have "bValidFlag (c ! lineIndex g sv j) = 0" using slot [OF j] by simp
      then show ?thesis using 3 k eq by (simp add: fillLines_fields)
    qed
  qed
qed

lemma traceLoop_fills:
  assumes g: "geometry_ok g" and sv: "unat sv < 2 ^ unat (iSetBitCount g)"
  shows "\<forall>r \<in> set recs. addrSValOf p g (fst (snd r)) = sv \<Longrightarrow>
     distinct (ts @ map (\<lambda>r. addrTagValOf p g (fst (snd r))) recs) \<Longrightarrow>
     length ts + length recs \<le> unat (iCacheLinesPerSet g) \<Longrightarrow>
     length (cacheAddr st) = cacheLineTotal g \<Longrightarrow>
     filledSet g (cacheAddr st) sv ts \<Longrightarrow>
     \<exists>st'. traceLoop p g recs f st = Some st' \<and> length (cacheAddr st') = cacheLineTotal g
       \<and> filledSet g (cacheAddr st') sv (ts @ map (\<lambda>r. addrTagValOf p g (fst (snd r))) recs)
       \<and> hits (stats st') = hits (stats st) \<and> evictions (stats st') = evictions (stats st)"
proof (induction recs arbitrary: ts st f)
  case Nil
  then show ?case by simp
next
  case (Cons r recs)
  obtain ch addr sz where r: "r = (ch, addr, sz)" by (cases r)
  let ?f = "if ch = CHR ''L'' then 0 else if ch = CHR ''S'' then 1 else f"
  let ?t = "addrTagValOf p g addr"
  have s: "addrSValOf p g addr = sv" using Cons.prems(1) r by simp
  have t: "?t \<notin> set ts" using Cons.prems(2) r by auto
  have m: "length ts < unat (iCacheLinesPerSet g)" using Cons.prems(3) by simp
  note fill = filledSet_fill [OF g sv Cons.prems(4) Cons.prems(5) m t]
  let ?st = "\<lparr>cacheAddr = fillLines g ?f sv ?t (length ts) (cacheAddr st),
               stats = (stats st)\<lparr>misses := misses (stats st) + 1\<rparr>\<rparr>"
  have 1: "checkSimulatorCache p g st ?f addr = Some ?st"
    using checkSimulatorCache_eq [OF g Cons.prems(4), of p ?f addr]
    by (simp add: s accessResult_fill [OF fill(1) fill(2)])
  have "\<exists>st'. traceLoop p g recs ?f ?st = Some st' \<and> length (cacheAddr st') = cacheLineTotal g
       \<and> filledSet g (cacheAddr st') sv ((ts @ [?t]) @ map (\<lambda>r. addrTagValOf p g (fst (snd r))) recs)
       \<and> hits (stats st') = hits (stats ?st) \<and> evictions (stats st') = evictions (stats ?st)"
    using Cons.prems r fill(3) by (intro Cons.IH) simp_all
  then show ?case unfolding r using 1 by (simp add: Let_def)
qed

text \<open>
  C3.  For every geometry for which the program is defined: when \<open>E\<close> records whose
  addresses lie in one set and have pairwise different tags \<open>t1 .. tE\<close> are replayed from
  the zero-initialised cache, all of them miss and fill (no hit, no eviction).  An access
  to a further tag of the same set then counts one eviction, after which \<open>t1\<close> is no longer
  resident while the new tag and \<open>t2 .. tE\<close> are.  If instead (for \<open>E \<ge> 2\<close>) the address of
  the second record is accessed again first, which is a hit, then after the access to the
  new tag \<open>t2\<close> is still resident.
\<close>

theorem C3_least_recently_used:
  assumes g: "geometry_ok g"
    and n: "length recs = unat (iCacheLinesPerSet g)"
    and same: "\<forall>r \<in> set recs. addrSValOf p g (fst (snd r)) = addrSValOf p g addr"
    and dist: "distinct (map (\<lambda>r. addrTagValOf p g (fst (snd r))) recs)"
    and new: "addrTagValOf p g addr \<notin> set (map (\<lambda>r. addrTagValOf p g (fst (snd r))) recs)"
  shows "\<exists>st st'. traceLoop p g recs 0 (initial_state g) = Some st
     \<and> hits (stats st) = 0 \<and> evictions (stats st) = 0
     \<and> checkSimulatorCache p g st a addr = Some st'
     \<and> evictions (stats st') = 1
     \<and> \<not> resident g (cacheAddr st') (addrSValOf p g addr) (addrTagValOf p g (fst (snd (recs ! 0))))
     \<and> resident g (cacheAddr st') (addrSValOf p g addr) (addrTagValOf p g addr)
     \<and> (\<forall>i. 0 < i \<and> i < length recs \<longrightarrow>
           resident g (cacheAddr st') (addrSValOf p g addr) (addrTagValOf p g (fst (snd (recs ! i)))))
     \<and> (2 \<le> length recs \<longrightarrow>
          (\<exists>st1 st2. checkSimulatorCache p g st a2 (fst (snd (recs ! 1))) = Some st1
             \<and> hits (stats st1) = 1
             \<and> checkSimulatorCache p g st1 a addr = Some st2
             \<and> resident g (cacheAddr st2) (addrSValOf p g addr)
                  (addrTagValOf p g (fst (snd (recs ! 1))))))"
proof -
  let ?E = "unat (iCacheLinesPerSet g)"
  let ?sv = "addrSValOf p g addr" and ?t = "addrTagValOf p g addr"
  let ?ts = "map (\<lambda>r. addrTagValOf p g (fst (snd r))) recs"
  have E: "1 \<le> ?E" and R: "unat (iRecentAccessRankValue g) = ?E"
    using g by (simp_all add: geometry_ok_def)
  have sv: "unat ?sv < 2 ^ unat (iSetBitCount g)"
    using g by (intro addrSValOf_less) (simp add: geometry_ok_def)
  have "\<exists>st. traceLoop p g recs 0 (initial_state g) = Some st
       \<and> length (cacheAddr st) = cacheLineTotal g
       \<and> filledSet g (cacheAddr st) ?sv ([] @ ?ts)
       \<and> hits (stats st) = hits (stats (initial_state g))
       \<and> evictions (stats st) = evictions (stats (initial_state g))"
    using same dist n by (intro traceLoop_fills [OF g sv]) (simp_all add: filledSet_initial [OF g sv])
  then obtain st where run: "traceLoop p g recs 0 (initial_state g) = Some st"
    and len: "length (cacheAddr st) = cacheLineTotal g"
    and full: "filledSet g (cacheAddr st) ?sv ?ts"
    and zero: "hits (stats st) = 0" "evictions (stats st) = 0"
    by (auto simp add: initial_state_def zero_stats_def)
  let ?c = "cacheAddr st"
  have acc: "accessible g ?c ?sv" using g sv len by (rule accessibleI)
  have slot: "iTag (?c ! lineIndex g ?sv j) = ?ts ! j" "bValidFlag (?c ! lineIndex g ?sv j) = 1"
    "unat (iRank (?c ! lineIndex g ?sv j)) = 1 + j" if "j < ?E" for j
    using full [unfolded filledSet_def, THEN conjunct2, rule_format, OF that] that n by simp_all
  have idx: "lineIndex g ?sv j < length ?c" if "j < ?E" for j
    using acc that by (simp add: accessible_less)
  have inj: "lineIndex g ?sv i = lineIndex g ?sv j \<longleftrightarrow> i = j" if "i < ?E" "j < ?E" for i j
    using acc that by (simp add: accessible_inj)
  have tsj: "?ts ! j \<in> set ?ts" if "j < ?E" for j using that n by simp
  have tnew: "?ts ! j \<noteq> ?t" if "j < ?E" for j using tsj [OF that] new by metis
  have tdiff: "?ts ! i \<noteq> ?ts ! j" if "i < ?E" "j < ?E" "i \<noteq> j" for i j
    using nth_eq_iff_index_eq [OF dist, of i j] that n by simp
  have nth_ts: "?ts ! j = addrTagValOf p g (fst (snd (recs ! j)))" if "j < ?E" for j
    using that n by simp
  have rec_sv: "addrSValOf p g (fst (snd (recs ! j))) = ?sv" if "j < ?E" for j
    using same that n by simp

  text \<open>The access to the new tag: a miss on a full set whose slot 0 has rank 1.\<close>
  have hitN: "hitSlot g ?c ?sv ?t = None"
    unfolding hitSlot_None using slot(1) tnew by simp
  have emptyN: "emptySlot g ?c ?sv = None"
    unfolding emptySlot_None using slot(2) by simp
  have "unat (iRank (?c ! lineIndex g ?sv 0)) = unat (1 :: 32 word)" using slot(3) [of 0] E by simp
  then have r0: "iRank (?c ! lineIndex g ?sv 0) = 1" by (simp only: word_unat_eq_iff)
  have victim: "victimSlot g ?c ?sv = Some 0"
    unfolding victimSlot_Some using r0 E by simp
  let ?st' = "\<lparr>cacheAddr = evictLines g a ?sv ?t 0 ?c,
                stats = (stats st)\<lparr>misses := misses (stats st) + 1,
                                   evictions := evictions (stats st) + 1\<rparr>\<rparr>"
  have run': "checkSimulatorCache p g st a addr = Some ?st'"
    using checkSimulatorCache_eq [OF g len, of p a addr]
    by (simp add: accessResult_evict [OF hitN emptyN victim])
  have tag': "iTag (cacheAddr ?st' ! lineIndex g ?sv j) = (if j = 0 then ?t else ?ts ! j)"
    and valid': "bValidFlag (cacheAddr ?st' ! lineIndex g ?sv j) = 1" if "j < ?E" for j
    using that idx [OF that] slot [OF that] inj [of j 0] E by (simp_all add: evictLines_fields)
  have gone: "\<not> resident g (cacheAddr ?st') ?sv (addrTagValOf p g (fst (snd (recs ! 0))))"
  proof -
    have "?ts ! 0 \<noteq> (if j = 0 then ?t else ?ts ! j)" if "j < ?E" for j
      using tnew [of 0] tdiff [of 0 j] that E by auto
    then have "hitSlot g (cacheAddr ?st') ?sv (?ts ! 0) = None"
      unfolding hitSlot_None using tag' by (metis (no_types, lifting))
    then show ?thesis using nth_ts [of 0] E by (simp add: resident_def)
  qed
  have here: "resident g (cacheAddr ?st') ?sv ?t"
    using tag' [of 0] valid' [of 0] E by (intro resident_slot [of 0]) simp_all
  have kept: "resident g (cacheAddr ?st') ?sv (addrTagValOf p g (fst (snd (recs ! i))))"
    if "0 < i" "i < length recs" for i
    using tag' [of i] valid' [of i] that n nth_ts [of i] by (intro resident_slot [of i]) simp_all

  text \<open>The same after a hit on the second tag.\<close>
  have second: "\<exists>st1 st2. checkSimulatorCache p g st a2 (fst (snd (recs ! 1))) = Some st1
             \<and> hits (stats st1) = 1
             \<and> checkSimulatorCache p g st1 a addr = Some st2
             \<and> resident g (cacheAddr st2) ?sv (addrTagValOf p g (fst (snd (recs ! 1))))"
    if two: "2 \<le> length recs"
  proof -
    have one: "1 < ?E" "0 < ?E" using two n by simp_all
    have hit1: "hitSlot g ?c ?sv (?ts ! 1) = Some 1"
      unfolding hitSlot_Some using slot(1,2) [OF one(1)] slot(1) [OF one(2)] tdiff [of 0 1] one
      by simp
    let ?st1 = "\<lparr>cacheAddr = hitLines g a2 ?sv 1 ?c,
                  stats = (stats st)\<lparr>hits := hits (stats st) + 1\<rparr>\<rparr>"
    let ?c1 = "cacheAddr ?st1"
    have a2: "addrSValOf p g (fst (snd (recs ! 1))) = ?sv"
      "addrTagValOf p g (fst (snd (recs ! 1))) = ?ts ! 1"
      using rec_sv [OF one(1)] nth_ts [OF one(1)] by simp_all
    have run1: "checkSimulatorCache p g st a2 (fst (snd (recs ! 1))) = Some ?st1"
      unfolding checkSimulatorCache_eq [OF g len] a2 accessResult_hit [OF hit1] by (rule refl)
    have len1: "length ?c1 = cacheLineTotal g" using len by simp
    have tag1: "iTag (?c1 ! lineIndex g ?sv j) = ?ts ! j"
      and valid1: "bValidFlag (?c1 ! lineIndex g ?sv j) = 1" if "j < ?E" for j
      using idx [OF that] slot [OF that] by (simp_all add: hitLines_fields)
    have "unat (iRank (?c1 ! lineIndex g ?sv 1)) = ?E"
      using hitLines_rank [OF acc one(1), of a2] R by simp
    then have rank1: "iRank (?c1 ! lineIndex g ?sv 1) \<noteq> 1" using one by auto
    have hitN1: "hitSlot g ?c1 ?sv ?t = None"
      unfolding hitSlot_None using tag1 tnew by simp
    have emptyN1: "emptySlot g ?c1 ?sv = None"
      unfolding emptySlot_None using valid1 by simp
    show ?thesis
    proof (cases "victimSlot g ?c1 ?sv")
      case None
      let ?st2 = "\<lparr>cacheAddr = ?c1,
                stats = (stats ?st1)\<lparr>misses := misses (stats ?st1) + 1,
                                   evictions := evictions (stats ?st1) + 1\<rparr>\<rparr>"
      have "checkSimulatorCache p g ?st1 a addr = Some ?st2"
        using checkSimulatorCache_eq [OF g len1, of p a addr] hitN1 emptyN1 None
        by (simp add: accessResult_stuck)
      moreover have "resident g (cacheAddr ?st2) ?sv (addrTagValOf p g (fst (snd (recs ! 1))))"
        using tag1 [OF one(1)] valid1 [OF one(1)] one nth_ts [OF one(1)]
        by (intro resident_slot [of 1]) simp_all
      ultimately show ?thesis using run1 zero by (intro exI [of _ ?st1] exI [of _ ?st2]) simp
    next
      case (Some j)
      then have j: "j < ?E" "j \<noteq> 1" using rank1 by (auto simp add: victimSlot_Some)
      let ?st2 = "\<lparr>cacheAddr = evictLines g a ?sv ?t j ?c1,
                stats = (stats ?st1)\<lparr>misses := misses (stats ?st1) + 1,
                                   evictions := evictions (stats ?st1) + 1\<rparr>\<rparr>"
      have "checkSimulatorCache p g ?st1 a addr = Some ?st2"
        using checkSimulatorCache_eq [OF g len1, of p a addr] hitN1 emptyN1 Some
        by (simp add: accessResult_evict)
      moreover have "resident g (cacheAddr ?st2) ?sv (addrTagValOf p g (fst (snd (recs ! 1))))"
        using tag1 [OF one(1)] valid1 [OF one(1)] one nth_ts [OF one(1)] idx [OF one(1)]
          inj [OF one(1) j(1)] j(2)
        by (intro resident_slot [of 1]) (simp_all add: evictLines_fields)
      ultimately show ?thesis using run1 zero by (intro exI [of _ ?st1] exI [of _ ?st2]) simp
    qed
  qed
  show ?thesis
    using run zero run' gone here kept second
    by (intro exI [of _ st] exI [of _ ?st']) simp
qed

theorem C3_least_recently_used_witness:
  "\<exists>st st'. traceLoop masking_platform (geometry 0 2 0) [(CHR ''L'', 0, 1), (CHR ''L'', 1, 1)] 0
                (initial_state (geometry 0 2 0)) = Some st
     \<and> hits (stats st) = 0 \<and> evictions (stats st) = 0
     \<and> checkSimulatorCache masking_platform (geometry 0 2 0) st 0 2 = Some st'
     \<and> evictions (stats st') = 1
     \<and> \<not> resident (geometry 0 2 0) (cacheAddr st') 0 0
     \<and> resident (geometry 0 2 0) (cacheAddr st') 0 2
     \<and> resident (geometry 0 2 0) (cacheAddr st') 0 1
     \<and> (\<exists>st1 st2. checkSimulatorCache masking_platform (geometry 0 2 0) st 0 1 = Some st1
            \<and> hits (stats st1) = 1
            \<and> checkSimulatorCache masking_platform (geometry 0 2 0) st1 0 2 = Some st2
            \<and> resident (geometry 0 2 0) (cacheAddr st2) 0 1)"
proof -
  let ?recs = "[(CHR ''L'', 0, 1), (CHR ''L'', 1, 1)] :: trace_record list"
  have n: "length ?recs = unat (iCacheLinesPerSet (geometry 0 2 0))"
    by (simp add: geometry_simps)
  have same: "\<forall>r \<in> set ?recs. addrSValOf masking_platform (geometry 0 2 0) (fst (snd r)) =
      addrSValOf masking_platform (geometry 0 2 0) 2"
    by (simp add: decompose_0_2_0)
  have dist: "distinct (map (\<lambda>r. addrTagValOf masking_platform (geometry 0 2 0) (fst (snd r))) ?recs)"
    by (simp add: decompose_0_2_0)
  have new: "addrTagValOf masking_platform (geometry 0 2 0) 2 \<notin>
      set (map (\<lambda>r. addrTagValOf masking_platform (geometry 0 2 0) (fst (snd r))) ?recs)"
    by (simp add: decompose_0_2_0)
  have ex: "\<exists>i>0. i < Suc (Suc 0)" by (rule exI [of _ 1]) simp
  from C3_least_recently_used [OF geometry_ok_0_2_0 n same dist new, of 0 0]
  show ?thesis by (simp add: decompose_0_2_0 ex)
qed

end
